theory Spec2Isabelle
  imports Main
begin

section \<open>Data model\<close>

text \<open>
  The elevator service keeps its whole state in three SQLite tables (\<open>elevators\<close>,
  \<open>event_logs\<close>, \<open>sql_logs\<close>) and in the timers it has registered with \<open>setTimeout\<close>.
  The model is a record of these, passed explicitly through every operation.

  Conventions of the embedding.
  \<^item> Floors and elevator ids are JavaScript numbers; the model covers the integer-valued
    ones (\<open>int\<close>). \<open>NaN\<close>, which \<open>parseInt\<close> can produce, is a value of its own.
  \<^item> The columns \<open>state\<close> and \<open>direction\<close> are TEXT; the code only ever writes the
    literals 'Idle', 'Moving', 'DoorsOpen' and 'Up', 'Down', 'None', so they are enumerations.
    All these literals are non-empty strings, hence truthy under \<open>||\<close>.
  \<^item> The column \<open>job_queue\<close> holds the text produced by \<open>JSON.stringify\<close>. The text
    itself is kept abstract: \<open>JSON_stringify q\<close> is the text of the array \<open>q\<close>, and
    \<open>JSON_parse\<close> reads it back. A value that is a text and a value that is an array
    remain different JavaScript values (\<open>job_queue_value\<close>).
  \<^item> \<open>uuidv4()\<close> is a supply of tokens that never repeats: the \<open>n\<close>-th draw is the
    token \<open>n\<close>.
  \<^item> Every database call of one callback completes, in program order, before the next
    timer fires (single-threaded, virtual clock). Timers are kept in the order in which
    the model registers them; that order only decides between timers due at the same
    millisecond. A callback arms its timers at the time at which it starts: the clock
    does not see the latency of the store, which in the program delays the door-close
    timer of \<open>arriveAtFloor\<close> behind two awaited calls. The invariant of the elevator
    record (last section) does not rest on this clock: it is proved for every
    interleaving of the reads and writes of the store.
\<close>

datatype elevator_state = Idle | Moving | DoorsOpen

datatype direction = Up | Down | Dir_None

record job =
  job_start :: int
  job_end :: int
  job_id :: nat

datatype json_text = JSON_stringify "job list"

fun JSON_parse :: "json_text \<Rightarrow> job list" where
  "JSON_parse (JSON_stringify q) = q"

datatype job_queue_value = Text json_text | Array "job list"

record 'q elevator =
  elev_id :: int
  current_floor :: int
  state :: elevator_state
  direction :: direction
  job_queue :: 'q

type_synonym row = "json_text elevator"

datatype js_number = Num int | NaN

datatype details =
    Call_details int int nat
  | Doors_details int string
  | State_update_details "elevator_state option" "direction option" "int option"

record event =
  ev_id :: nat
  ev_timestamp :: int
  ev_elevator_id :: int
  event_type :: string
  details :: details

datatype query = Select_all | Select_by_id js_number

record sql_log =
  log_id :: nat
  log_timestamp :: int
  query_text :: query
  who :: string

text \<open>
  The closures handed to \<open>setTimeout\<close>, with the variables they capture:
  \<open>() => floorIterator(nextFloor)\<close> inside \<open>moveElevator\<close> (captures \<open>elevatorId\<close>,
  \<open>endFloor\<close>, \<open>direction\<close>), the door-close callback of \<open>arriveAtFloor\<close>, and the
  second-leg callback of \<open>callElevator\<close>.
\<close>

datatype task =
    FloorIterator int int direction int
  | CloseDoors int int
  | SecondLeg int int int nat

record sys =
  elevators :: "row list"
  event_logs :: "event list"
  sql_logs :: "sql_log list"
  timers :: "(int \<times> task) list"
  now :: int
  uuids :: nat

record config =
  FLOOR_TRAVEL_TIME_MS :: int
  DOOR_ACTION_TIME_MS :: int
  MAX_FLOORS :: int

text \<open>\<open>parseInt(process.env.X, 10) || d\<close>: a missing, unparsable or zero setting gives the default.\<close>

fun env_or :: "js_number \<Rightarrow> int \<Rightarrow> int" where
  "env_or NaN d = d"
| "env_or (Num n) d = (if n = 0 then d else n)"

definition config_from_env :: "js_number \<Rightarrow> js_number \<Rightarrow> js_number \<Rightarrow> config" where
  "config_from_env t d m =
     \<lparr>FLOOR_TRAVEL_TIME_MS = env_or t 5000, DOOR_ACTION_TIME_MS = env_or d 2000,
      MAX_FLOORS = env_or m 20\<rparr>"

definition default_config :: config where
  "default_config = config_from_env NaN NaN NaN"

section \<open>The database layer (db.js)\<close>

definition uuidv4 :: "sys \<Rightarrow> nat \<times> sys" where
  "uuidv4 s = (uuids s, s\<lparr>uuids := Suc (uuids s)\<rparr>)"

definition logSql :: "query \<Rightarrow> sys \<Rightarrow> sys" where
  "logSql q s =
     (case uuidv4 s of (u, s1) \<Rightarrow>
        s1\<lparr>sql_logs := sql_logs s1 @
              [\<lparr>log_id = u, log_timestamp = now s1, query_text = q, who = ''system''\<rparr>]\<rparr>)"

definition logEvent :: "int \<Rightarrow> string \<Rightarrow> details \<Rightarrow> sys \<Rightarrow> sys" where
  "logEvent elevator_id ev_type det s =
     (case uuidv4 s of (u, s1) \<Rightarrow>
        s1\<lparr>event_logs := event_logs s1 @
              [\<lparr>ev_id = u, ev_timestamp = now s1, ev_elevator_id = elevator_id,
                event_type = ev_type, details = det\<rparr>]\<rparr>)"

text \<open>
  \<open>initializeDb\<close>: the tables are created if absent; elevators are inserted only into an
  empty table, ids \<open>1..numElevators\<close>, each at floor 1, Idle, direction None, queue \<open>[]\<close>.
\<close>

definition initial_row :: "int \<Rightarrow> row" where
  "initial_row i =
     \<lparr>elev_id = i, current_floor = 1, state = Idle, direction = Dir_None,
      job_queue = JSON_stringify []\<rparr>"

function insert_loop :: "int \<Rightarrow> int \<Rightarrow> row list \<Rightarrow> row list" where
  "insert_loop i numElevators tbl =
     (if i \<le> numElevators then insert_loop (i + 1) numElevators (tbl @ [initial_row i])
      else tbl)"
  by pat_completeness auto
termination
  by (relation "measure (\<lambda>(i, n, tbl). nat (n + 1 - i))") auto

definition initializeDb :: "int \<Rightarrow> sys \<Rightarrow> sys" where
  "initializeDb numElevators s =
     (if length (elevators s) = 0
      then s\<lparr>elevators := insert_loop 1 numElevators (elevators s)\<rparr>
      else s)"

definition empty_sys :: sys where
  "empty_sys = \<lparr>elevators = [], event_logs = [], sql_logs = [], timers = [], now = 0, uuids = 0\<rparr>"

definition getElevators :: "sys \<Rightarrow> row list \<times> sys" where
  "getElevators s = (let s1 = logSql Select_all s in (elevators s1, s1))"

fun id_matches :: "js_number \<Rightarrow> row \<Rightarrow> bool" where
  "id_matches (Num i) r = (elev_id r = i)"
| "id_matches NaN r = False"

text \<open>\<open>{ ...row, job_queue: v }\<close>: the same object with the field \<open>job_queue\<close> replaced.\<close>

definition with_job_queue :: "'a elevator \<Rightarrow> 'b \<Rightarrow> 'b elevator" where
  "with_job_queue r v =
     \<lparr>elev_id = elev_id r, current_floor = current_floor r, state = state r,
      direction = direction r, job_queue = v\<rparr>"

definition parse_row :: "row \<Rightarrow> job list elevator" where
  "parse_row r = with_job_queue r (JSON_parse (job_queue r))"

definition getElevatorById :: "js_number \<Rightarrow> sys \<Rightarrow> job list elevator option \<times> sys" where
  "getElevatorById i s =
     (let s1 = logSql (Select_by_id i) s
      in (map_option parse_row (find (id_matches i) (elevators s1)), s1))"

text \<open>
  The partial update object \<open>newState\<close>: a field that is absent is \<open>None\<close>.
  \<open>a || b\<close> yields \<open>b\<close> when \<open>a\<close> is absent, and also when \<open>a\<close> is the number 0.
\<close>

record new_state =
  upd_current_floor :: "int option"
  upd_state :: "elevator_state option"
  upd_direction :: "direction option"
  upd_job_queue :: "job list option"

definition no_update :: new_state where
  "no_update = \<lparr>upd_current_floor = None, upd_state = None, upd_direction = None,
                upd_job_queue = None\<rparr>"

fun num_or :: "int option \<Rightarrow> int \<Rightarrow> int" where
  "num_or None d = d"
| "num_or (Some n) d = (if n = 0 then d else n)"

fun truthy_or :: "'a option \<Rightarrow> 'a \<Rightarrow> 'a" where
  "truthy_or None d = d"
| "truthy_or (Some v) d = v"

definition update_row :: "job list elevator \<Rightarrow> new_state \<Rightarrow> row \<Rightarrow> row" where
  "update_row elevator newState r =
     r\<lparr>current_floor := num_or (upd_current_floor newState) (current_floor elevator),
       state := truthy_or (upd_state newState) (state elevator),
       direction := truthy_or (upd_direction newState) (direction elevator),
       job_queue := JSON_stringify (truthy_or (upd_job_queue newState) (job_queue elevator))\<rparr>"

definition updateElevatorState :: "int \<Rightarrow> new_state \<Rightarrow> sys \<Rightarrow> sys" where
  "updateElevatorState i newState s =
     (case getElevatorById (Num i) s of
        (None, s1) \<Rightarrow> s1
      | (Some elevator, s1) \<Rightarrow>
          logEvent i ''state_update''
            (State_update_details (upd_state newState) (upd_direction newState)
               (upd_current_floor newState))
            (s1\<lparr>elevators :=
                  map (\<lambda>r. if elev_id r = i then update_row elevator newState r else r)
                    (elevators s1)\<rparr>))"

section \<open>The service layer (elevatorService.js)\<close>

subsection \<open>Timers\<close>

text \<open>
  \<open>setTimeout(cb, delay)\<close> registers \<open>cb\<close> to run \<open>delay\<close> milliseconds from now; Node
  replaces a delay outside \<open>1..2^31-1\<close> by 1.
\<close>

definition TIMEOUT_MAX :: int where
  "TIMEOUT_MAX = 2147483647"

definition timer_delay :: "int \<Rightarrow> int" where
  "timer_delay d = (if 1 \<le> d \<and> d \<le> TIMEOUT_MAX then d else 1)"

definition setTimeout :: "task \<Rightarrow> int \<Rightarrow> sys \<Rightarrow> sys" where
  "setTimeout cb delay s = s\<lparr>timers := timers s @ [(now s + timer_delay delay, cb)]\<rparr>"

subsection \<open>Selection\<close>

fun closest_loop :: "int \<Rightarrow> row list \<Rightarrow> row \<Rightarrow> int \<Rightarrow> row" where
  "closest_loop startFloor [] closestElevator minDistance = closestElevator"
| "closest_loop startFloor (e # es) closestElevator minDistance =
     (let distance = \<bar>current_floor e - startFloor\<bar>
      in if distance < minDistance then closest_loop startFloor es e distance
         else closest_loop startFloor es closestElevator minDistance)"

definition findClosestIdleElevator :: "int \<Rightarrow> sys \<Rightarrow> row option \<times> sys" where
  "findClosestIdleElevator startFloor s =
     (case getElevators s of (all_rows, s1) \<Rightarrow>
        (case filter (\<lambda>e. state e = Idle) all_rows of
           [] \<Rightarrow> (None, s1)
         | e0 # rest \<Rightarrow>
             (Some (closest_loop startFloor rest e0 \<bar>current_floor e0 - startFloor\<bar>), s1)))"

subsection \<open>Movement\<close>

definition closeDoors :: "int \<Rightarrow> int \<Rightarrow> sys \<Rightarrow> sys" where
  "closeDoors elevatorId floor s =
     logEvent elevatorId ''door_close'' (Doors_details floor ''closed'')
       (updateElevatorState elevatorId
          (no_update\<lparr>upd_state := Some Idle, upd_direction := Some Dir_None,
                      upd_job_queue := Some []\<rparr>) s)"

definition arriveAtFloor :: "config \<Rightarrow> int \<Rightarrow> int \<Rightarrow> sys \<Rightarrow> sys" where
  "arriveAtFloor cfg elevatorId floor s =
     setTimeout (CloseDoors elevatorId floor) (DOOR_ACTION_TIME_MS cfg)
       (logEvent elevatorId ''arrival'' (Doors_details floor ''open'')
          (updateElevatorState elevatorId (no_update\<lparr>upd_state := Some DoorsOpen\<rparr>) s))"

definition floorIterator :: "config \<Rightarrow> int \<Rightarrow> int \<Rightarrow> direction \<Rightarrow> int \<Rightarrow> sys \<Rightarrow> sys" where
  "floorIterator cfg elevatorId endFloor dir currentFloor s =
     (if currentFloor = endFloor then arriveAtFloor cfg elevatorId endFloor s
      else
        let s1 = updateElevatorState elevatorId
                   (no_update\<lparr>upd_current_floor := Some currentFloor\<rparr>) s;
            nextFloor = (if dir = Up then currentFloor + 1 else currentFloor - 1)
        in setTimeout (FloorIterator elevatorId endFloor dir nextFloor)
             (FLOOR_TRAVEL_TIME_MS cfg) s1)"

definition moveElevator :: "config \<Rightarrow> int \<Rightarrow> int \<Rightarrow> int \<Rightarrow> nat \<Rightarrow> sys \<Rightarrow> sys" where
  "moveElevator cfg elevatorId startFloor endFloor jobId s =
     (case getElevatorById (Num elevatorId) s of
        (None, s1) \<Rightarrow> s1
      | (Some elevator, s1) \<Rightarrow>
          let dir = (if endFloor > startFloor then Up else Down);
              s2 = updateElevatorState elevatorId
                     (no_update\<lparr>upd_state := Some Moving, upd_direction := Some dir,
                        upd_job_queue :=
                          Some [\<lparr>job_start = startFloor, job_end = endFloor, job_id = jobId\<rparr>]\<rparr>)
                     s1
          in floorIterator cfg elevatorId endFloor dir startFloor s2)"

subsection \<open>Dispatch\<close>

record call_result =
  success :: bool
  message :: string
  res_jobId :: "nat option"
  res_elevator_id :: "int option"
  status :: "string option"

definition rejected :: "string \<Rightarrow> call_result" where
  "rejected msg =
     \<lparr>success = False, message = msg, res_jobId = None, res_elevator_id = None, status = None\<rparr>"

definition callElevator :: "config \<Rightarrow> int \<Rightarrow> int \<Rightarrow> sys \<Rightarrow> call_result \<times> sys" where
  "callElevator cfg startFloor endFloor s =
     (if startFloor = endFloor \<or> startFloor > MAX_FLOORS cfg \<or> endFloor > MAX_FLOORS cfg
      then (rejected ''Invalid floor numbers.'', s)
      else
        (case findClosestIdleElevator startFloor s of
           (None, s1) \<Rightarrow> (rejected ''No idle elevators available.'', s1)
         | (Some elevator, s1) \<Rightarrow>
             (case uuidv4 s1 of (jobId, s2) \<Rightarrow>
                let s3 = logEvent (elev_id elevator) ''call''
                           (Call_details startFloor endFloor jobId) s2;
                    s4 = moveElevator cfg (elev_id elevator) (current_floor elevator)
                           startFloor jobId s3;
                    timeToArriveAtStart =
                      \<bar>startFloor - current_floor elevator\<bar> * FLOOR_TRAVEL_TIME_MS cfg;
                    s5 = setTimeout (SecondLeg (elev_id elevator) startFloor endFloor jobId)
                           (timeToArriveAtStart + DOOR_ACTION_TIME_MS cfg * 2) s4
                in (\<lparr>success = True, message = ''Elevator dispatched.'',
                     res_jobId = Some jobId, res_elevator_id = Some (elev_id elevator),
                     status = Some ''Moving''\<rparr>, s5))))"

subsection \<open>Status query\<close>

text \<open>
  The argument of \<open>getElevatorStatus\<close> is documented as \<open>number|string|null\<close>; the route
  passes the raw query parameter, a string or \<open>undefined\<close>. \<open>if (elevatorId)\<close> tests
  truthiness; \<open>parseInt\<close> without radix skips leading white space, reads a sign, an
  optional \<open>0x\<close> prefix and the longest prefix of digits, and is \<open>NaN\<close> when there is
  no digit. (Strings are ASCII here, and numbers stay within the range where
  \<open>parseInt\<close> of a number is the number.)
\<close>

datatype js_value = JS_undefined | JS_null | JS_number js_number | JS_string string

fun truthy :: "js_value \<Rightarrow> bool" where
  "truthy JS_undefined = False"
| "truthy JS_null = False"
| "truthy (JS_number NaN) = False"
| "truthy (JS_number (Num n)) = (n \<noteq> 0)"
| "truthy (JS_string str) = (str \<noteq> [])"

definition StrWhiteSpaceChar :: "char \<Rightarrow> bool" where
  "StrWhiteSpaceChar c = (c \<in> set [CHR 0x09, CHR 0x0A, CHR 0x0B, CHR 0x0C, CHR 0x0D, CHR 0x20])"

definition digit_value :: "char \<Rightarrow> nat option" where
  "digit_value c =
     (let n = (of_char c :: nat)
      in if 48 \<le> n \<and> n \<le> 57 then Some (n - 48)
         else if 97 \<le> n \<and> n \<le> 122 then Some (n - 87)
         else if 65 \<le> n \<and> n \<le> 90 then Some (n - 55)
         else None)"

definition radix_digit :: "nat \<Rightarrow> char \<Rightarrow> bool" where
  "radix_digit R c = (case digit_value c of Some v \<Rightarrow> v < R | None \<Rightarrow> False)"

definition digits_value :: "nat \<Rightarrow> string \<Rightarrow> nat" where
  "digits_value R Z = foldl (\<lambda>acc c. acc * R + the (digit_value c)) 0 Z"

definition parseInt_string :: "string \<Rightarrow> js_number" where
  "parseInt_string inputString =
     (let S = dropWhile StrWhiteSpaceChar inputString;
          negative = (S \<noteq> [] \<and> hd S = CHR ''-'');
          S1 = (if S \<noteq> [] \<and> (hd S = CHR ''+'' \<or> hd S = CHR ''-'') then tl S else S);
          hex = (take 2 S1 = ''0x'' \<or> take 2 S1 = ''0X'');
          R = (if hex then 16 else 10);
          S2 = (if hex then drop 2 S1 else S1);
          Z = takeWhile (radix_digit R) S2
      in if Z = [] then NaN
         else Num ((if negative then - 1 else 1) * int (digits_value R Z)))"

fun parseInt :: "js_value \<Rightarrow> js_number" where
  "parseInt (JS_number n) = n"
| "parseInt (JS_string str) = parseInt_string str"
| "parseInt JS_undefined = NaN"
| "parseInt JS_null = NaN"

definition getElevatorStatus ::
    "js_value \<Rightarrow> sys \<Rightarrow> job_queue_value elevator list \<times> sys" where
  "getElevatorStatus elevatorId s =
     (if truthy elevatorId then
        (case getElevatorById (parseInt elevatorId) s of
           (Some elevator, s1) \<Rightarrow> ([with_job_queue elevator (Array (job_queue elevator))], s1)
         | (None, s1) \<Rightarrow> ([], s1))
      else
        (case getElevators s of (rows, s1) \<Rightarrow>
           (map (\<lambda>r. with_job_queue r (Text (job_queue r))) rows, s1)))"

subsection \<open>The clock\<close>

text \<open>
  Firing a timer runs its callback. The pending timer with the least due time fires
  next, the one registered first among equals; the clock then shows its due time.
\<close>

fun run_task :: "config \<Rightarrow> task \<Rightarrow> sys \<Rightarrow> sys" where
  "run_task cfg (FloorIterator elevatorId endFloor dir currentFloor) s =
     floorIterator cfg elevatorId endFloor dir currentFloor s"
| "run_task cfg (CloseDoors elevatorId floor) s = closeDoors elevatorId floor s"
| "run_task cfg (SecondLeg elevatorId startFloor endFloor jobId) s =
     moveElevator cfg elevatorId startFloor endFloor jobId s"

fun earliest :: "(int \<times> task) \<Rightarrow> (int \<times> task) list \<Rightarrow> (int \<times> task)" where
  "earliest best [] = best"
| "earliest best (t # ts) = (if fst t < fst best then earliest t ts else earliest best ts)"

definition fire_next :: "config \<Rightarrow> sys \<Rightarrow> sys" where
  "fire_next cfg s =
     (case timers s of
        [] \<Rightarrow> s
      | t # ts \<Rightarrow>
          let tm = earliest t ts
          in run_task cfg (snd tm)
               (s\<lparr>timers := remove1 tm (t # ts), now := max (now s) (fst tm)\<rparr>))"

text \<open>
  Advancing the clock to \<open>limit\<close> fires, in order, every timer that is due by then,
  including those registered on the way, and then shows \<open>limit\<close>. Each callback
  registers at most one timer, due strictly later than the moment it runs, so the sum over
  the pending timers of the time left until \<open>limit\<close> decreases and the loop ends.
\<close>

lemma logSql_frame [simp]:
  "timers (logSql q s) = timers s" "now (logSql q s) = now s"
  "elevators (logSql q s) = elevators s" "event_logs (logSql q s) = event_logs s"
  "uuids (logSql q s) = Suc (uuids s)"
  by (simp_all add: logSql_def uuidv4_def)

lemma logEvent_frame [simp]:
  "timers (logEvent i ty d s) = timers s" "now (logEvent i ty d s) = now s"
  "elevators (logEvent i ty d s) = elevators s" "sql_logs (logEvent i ty d s) = sql_logs s"
  "uuids (logEvent i ty d s) = Suc (uuids s)"
  by (simp_all add: logEvent_def uuidv4_def)

lemma getElevatorById_snd [simp]: "snd (getElevatorById i s) = logSql (Select_by_id i) s"
  by (simp add: getElevatorById_def Let_def)

lemma getElevatorById_fst [simp]:
  "fst (getElevatorById i s) = map_option parse_row (find (id_matches i) (elevators s))"
  by (simp add: getElevatorById_def Let_def)

lemma updateElevatorState_frame [simp]:
  "timers (updateElevatorState i u s) = timers s" "now (updateElevatorState i u s) = now s"
  by (simp_all add: updateElevatorState_def split: prod.splits option.splits)
     (auto simp: getElevatorById_def Let_def)

lemma setTimeout_frame [simp]:
  "now (setTimeout cb d s) = now s" "elevators (setTimeout cb d s) = elevators s"
  "event_logs (setTimeout cb d s) = event_logs s" "uuids (setTimeout cb d s) = uuids s"
  "sql_logs (setTimeout cb d s) = sql_logs s"
  by (simp_all add: setTimeout_def)

lemma timers_setTimeout: "timers (setTimeout cb d s) = timers s @ [(now s + timer_delay d, cb)]"
  by (simp add: setTimeout_def)

lemma timer_delay_pos: "0 < timer_delay d"
  by (simp add: timer_delay_def)

lemma closeDoors_frame [simp]:
  "timers (closeDoors i f s) = timers s" "now (closeDoors i f s) = now s"
  by (simp_all add: closeDoors_def)

lemma arriveAtFloor_timers:
  "timers (arriveAtFloor cfg i f s) = timers s @ [(now s + timer_delay (DOOR_ACTION_TIME_MS cfg), CloseDoors i f)]"
  by (simp add: arriveAtFloor_def timers_setTimeout)

lemma floorIterator_timers:
  "\<exists>d c. timers (floorIterator cfg i e dir cur s) = timers s @ [(d, c)] \<and> now s < d"
  by (simp add: floorIterator_def arriveAtFloor_timers timers_setTimeout Let_def timer_delay_pos)

lemma moveElevator_timers:
  "timers (moveElevator cfg i a b j s) = timers s \<or>
   (\<exists>d c. timers (moveElevator cfg i a b j s) = timers s @ [(d, c)] \<and> now s < d)"
proof (cases "getElevatorById (Num i) s")
  case (Pair r s1)
  then have s1: "s1 = logSql (Select_by_id (Num i)) s"
    by (metis getElevatorById_snd snd_conv)
  show ?thesis
  proof (cases r)
    case None
    with Pair s1 show ?thesis by (simp add: moveElevator_def)
  next
    case (Some el)
    with Pair s1 show ?thesis
      using floorIterator_timers [of cfg i b "if b > a then Up else Down" a
          "updateElevatorState i (no_update\<lparr>upd_state := Some Moving, upd_direction := Some (if b > a then Up else Down),
                        upd_job_queue := Some [\<lparr>job_start = a, job_end = b, job_id = j\<rparr>]\<rparr>) s1"]
      by (simp add: moveElevator_def Let_def)
  qed
qed

lemma run_task_timers:
  "timers (run_task cfg cb s) = timers s \<or>
   (\<exists>d c. timers (run_task cfg cb s) = timers s @ [(d, c)] \<and> now s < d)"
proof (cases cb)
  case (FloorIterator i e dir cur)
  then show ?thesis using floorIterator_timers [of cfg i e dir cur s] by simp
next
  case (CloseDoors i f)
  then show ?thesis by simp
next
  case (SecondLeg i a b j)
  then show ?thesis using moveElevator_timers [of cfg i a b j s] by simp
qed

lemma earliest_in: "earliest b ts \<in> set (b # ts)"
  by (induction ts arbitrary: b) (auto)

lemma earliest_le_all: "\<forall>x \<in> set (b # ts). fst (earliest b ts) \<le> fst x"
proof (induction ts arbitrary: b)
  case Nil
  then show ?case by simp
next
  case (Cons a ts)
  show ?case
  proof (cases "fst a < fst b")
    case True
    with Cons.IH [of a] show ?thesis by auto
  next
    case False
    with Cons.IH [of b] show ?thesis by auto
  qed
qed

lemma earliest_le: "x \<in> set (b # ts) \<Longrightarrow> fst (earliest b ts) \<le> fst x"
  using earliest_le_all by blast

definition timer_weight :: "int \<Rightarrow> (int \<times> task) list \<Rightarrow> nat" where
  "timer_weight limit ts = sum_list (map (\<lambda>t. nat (limit + 1 - fst t)) ts)"

lemma timer_weight_remove1:
  "x \<in> set ts \<Longrightarrow> timer_weight limit ts = timer_weight limit (remove1 x ts) + nat (limit + 1 - fst x)"
  by (induction ts) (auto simp: timer_weight_def)

lemma timer_weight_append [simp]:
  "timer_weight limit (ts @ us) = timer_weight limit ts + timer_weight limit us"
  by (simp add: timer_weight_def)

lemma fire_next_weight:
  assumes "timers s = t # ts" "fst (earliest t ts) \<le> limit"
  shows "timer_weight limit (timers (fire_next cfg s)) < timer_weight limit (timers s)"
proof -
  let ?tm = "earliest t ts"
  let ?s' = "s\<lparr>timers := remove1 ?tm (t # ts), now := max (now s) (fst ?tm)\<rparr>"
  have fn: "fire_next cfg s = run_task cfg (snd ?tm) ?s'"
    using assms by (simp add: fire_next_def Let_def)
  have w: "timer_weight limit (timers s) = timer_weight limit (remove1 ?tm (t # ts)) + nat (limit + 1 - fst ?tm)"
    using timer_weight_remove1 [OF earliest_in, of limit t ts] assms by simp
  from run_task_timers [of cfg "snd ?tm" ?s'] show ?thesis
  proof
    assume "timers (run_task cfg (snd ?tm) ?s') = timers ?s'"
    with fn w assms show ?thesis by simp
  next
    assume "\<exists>d c. timers (run_task cfg (snd ?tm) ?s') = timers ?s' @ [(d, c)] \<and> now ?s' < d"
    then obtain d c where "timers (run_task cfg (snd ?tm) ?s') = timers ?s' @ [(d, c)]" "now ?s' < d"
      by blast
    with fn w assms show ?thesis by (simp add: timer_weight_def)
  qed
qed

function run_until :: "config \<Rightarrow> int \<Rightarrow> sys \<Rightarrow> sys" where
  "run_until cfg limit s =
     (case timers s of
        [] \<Rightarrow> s\<lparr>now := max (now s) limit\<rparr>
      | t # ts \<Rightarrow>
          if fst (earliest t ts) \<le> limit then run_until cfg limit (fire_next cfg s)
          else s\<lparr>now := max (now s) limit\<rparr>)"
  by pat_completeness auto
termination
proof (relation "measure (\<lambda>(cfg, limit, s). timer_weight limit (timers s))")
  show "wf (measure (\<lambda>(cfg, limit, s). timer_weight limit (timers s)))" by simp
next
  fix cfg :: config and limit :: int and s :: sys and t ts
  assume "timers s = t # ts" "fst (earliest t ts) \<le> limit"
  then show "((cfg, limit, fire_next cfg s), (cfg, limit, s))
      \<in> measure (\<lambda>(cfg, limit, s). timer_weight limit (timers s))"
    using fire_next_weight [of s t ts limit cfg] by simp
qed

text \<open>\<open>advance cfg ms\<close>: let \<open>ms\<close> milliseconds pass.\<close>

definition advance :: "config \<Rightarrow> int \<Rightarrow> sys \<Rightarrow> sys" where
  "advance cfg ms s = run_until cfg (now s + ms) s"

section \<open>Notions used to state the properties\<close>

text \<open>
  The distance of an elevator from a floor; the Idle elevators in table order; the job ids
  handed out so far (those of the \<open>call\<close> events in the log); the deletion of a record
  from outside the service.
\<close>

definition distance_to :: "int \<Rightarrow> row \<Rightarrow> int" where
  "distance_to startFloor e = \<bar>current_floor e - startFloor\<bar>"

definition idle_elevators :: "sys \<Rightarrow> row list" where
  "idle_elevators s = filter (\<lambda>e. state e = Idle) (elevators s)"

fun job_of_details :: "details \<Rightarrow> nat list" where
  "job_of_details (Call_details a b j) = [j]"
| "job_of_details (Doors_details f d) = []"
| "job_of_details (State_update_details x y z) = []"

definition issued_job_ids :: "sys \<Rightarrow> nat list" where
  "issued_job_ids s = concat (map (\<lambda>e. job_of_details (details e)) (event_logs s))"

definition delete_elevator :: "int \<Rightarrow> sys \<Rightarrow> sys" where
  "delete_elevator i s = s\<lparr>elevators := filter (\<lambda>r. elev_id r \<noteq> i) (elevators s)\<rparr>"

text \<open>
  The states the system can be in: it starts from an initialised database; calls and
  status queries arrive at any moment; timers fire; the clock advances; a record may be
  deleted.
\<close>

inductive reachable :: "config \<Rightarrow> sys \<Rightarrow> bool" for cfg :: config where
  init: "reachable cfg (initializeDb numElevators empty_sys)"
| call: "reachable cfg s \<Longrightarrow> reachable cfg (snd (callElevator cfg startFloor endFloor s))"
| status: "reachable cfg s \<Longrightarrow> reachable cfg (snd (getElevatorStatus elevatorId s))"
| fire: "reachable cfg s \<Longrightarrow> reachable cfg (fire_next cfg s)"
| wait: "reachable cfg s \<Longrightarrow> reachable cfg (run_until cfg limit s)"
| delete: "reachable cfg s \<Longrightarrow> reachable cfg (delete_elevator i s)"

subsection \<open>Example states\<close>

text \<open>
  A freshly initialised building with three elevators (the default of \<open>NUM_ELEVATORS\<close>
  in one version of \<open>db.js\<close>) and one with a single elevator; the two-elevator scenario
  of the specification and of the test (elevators at floors 1 and 10, both Idle); the
  three elevators after the call from floor 2 to floor 4; the single elevator just
  dispatched from floor 2 to floor 4; that state with the elevator's
  record deleted; and the single elevator after two overlapping calls.
\<close>

definition fresh_sys :: sys where
  "fresh_sys = initializeDb 3 empty_sys"

definition single_sys :: sys where
  "single_sys = initializeDb 1 empty_sys"

definition scenario_sys :: sys where
  "scenario_sys = empty_sys\<lparr>elevators := [initial_row 1, (initial_row 2)\<lparr>current_floor := 10\<rparr>]\<rparr>"

definition called_sys :: sys where
  "called_sys = snd (callElevator default_config 2 4 fresh_sys)"

definition busy_sys :: sys where
  "busy_sys = snd (callElevator default_config 2 4 single_sys)"

definition orphaned_sys :: sys where
  "orphaned_sys = delete_elevator 1 busy_sys"


section \<open>Auxiliary facts\<close>

lemma JSON_roundtrip [simp]: "JSON_stringify (JSON_parse t) = t"
  by (cases t) simp

lemma updateElevatorState_found:
  assumes "find (id_matches (Num i)) (elevators s) = Some r"
  shows "updateElevatorState i u s =
           logEvent i ''state_update''
             (State_update_details (upd_state u) (upd_direction u) (upd_current_floor u))
             ((logSql (Select_by_id (Num i)) s)
                \<lparr>elevators := map (\<lambda>x. if elev_id x = i then update_row (parse_row r) u x else x)
                                (elevators s)\<rparr>)"
  using assms by (simp add: updateElevatorState_def getElevatorById_def Let_def)

lemma updateElevatorState_missing:
  assumes "find (id_matches (Num i)) (elevators s) = None"
  shows "updateElevatorState i u s = logSql (Select_by_id (Num i)) s"
  using assms by (simp add: updateElevatorState_def getElevatorById_def Let_def)

lemma elev_id_update_row [simp]: "elev_id (update_row e u x) = elev_id x"
  by (simp add: update_row_def)

lemma find_map_update:
  assumes "find (id_matches (Num i)) xs = Some r" and "\<And>x. elev_id (f x) = elev_id x"
  shows "find (id_matches (Num i)) (map (\<lambda>x. if elev_id x = i then f x else x) xs) = Some (f r)"
  using assms by (induction xs) (auto split: if_splits)



lemma logEvent_event_logs:
  "event_logs (logEvent i ty d s) =
     event_logs s @ [\<lparr>ev_id = uuids s, ev_timestamp = now s, ev_elevator_id = i,
                       event_type = ty, details = d\<rparr>]"
  by (simp add: logEvent_def uuidv4_def)

lemma moveElevator_now [simp]: "now (moveElevator cfg i a b j s) = now s"
  by (simp add: moveElevator_def getElevatorById_def Let_def floorIterator_def arriveAtFloor_def
      split: option.splits)

lemma closest_loop_first_minimum:
  assumes "xs = pre0 @ c # mid"
    and "\<forall>x \<in> set pre0. distance_to sf c < distance_to sf x"
    and "\<forall>x \<in> set mid. distance_to sf c \<le> distance_to sf x"
  shows "\<exists>pre post. xs @ es = pre @ closest_loop sf es c (distance_to sf c) # post
           \<and> (\<forall>x \<in> set pre. distance_to sf (closest_loop sf es c (distance_to sf c)) < distance_to sf x)
           \<and> (\<forall>x \<in> set post. distance_to sf (closest_loop sf es c (distance_to sf c)) \<le> distance_to sf x)"
  using assms
proof (induction es arbitrary: xs pre0 c mid)
  case Nil
  then show ?case by auto
next
  case (Cons e es)
  show ?case
  proof (cases "distance_to sf e < distance_to sf c")
    case True
    have "\<forall>x \<in> set (pre0 @ c # mid). distance_to sf e < distance_to sf x"
      using True Cons.prems by fastforce
    from Cons.IH [of "xs @ [e]" "pre0 @ c # mid" e "[]", OF _ this]
    show ?thesis using True Cons.prems(1) by (simp add: distance_to_def)
  next
    case False
    have "\<forall>x \<in> set (mid @ [e]). distance_to sf c \<le> distance_to sf x"
      using False Cons.prems by auto
    from Cons.IH [of "xs @ [e]" pre0 c "mid @ [e]", OF _ Cons.prems(2) this]
    show ?thesis using False Cons.prems(1) by (simp add: distance_to_def)
  qed
qed

lemma findClosestIdleElevator_none:
  "idle_elevators s = [] \<Longrightarrow> findClosestIdleElevator sf s = (None, logSql Select_all s)"
  by (simp add: findClosestIdleElevator_def getElevators_def idle_elevators_def Let_def)

lemma findClosestIdleElevator_some:
  "idle_elevators s = e0 # rest \<Longrightarrow>
   findClosestIdleElevator sf s =
     (Some (closest_loop sf rest e0 (distance_to sf e0)), logSql Select_all s)"
  by (simp add: findClosestIdleElevator_def getElevators_def idle_elevators_def Let_def
      distance_to_def)

lemma findClosestIdleElevator_first_minimum:
  assumes "idle_elevators s \<noteq> []"
  shows "\<exists>pre e post. fst (findClosestIdleElevator sf s) = Some e
           \<and> idle_elevators s = pre @ e # post
           \<and> (\<forall>x \<in> set pre. distance_to sf e < distance_to sf x)
           \<and> (\<forall>x \<in> set post. distance_to sf e \<le> distance_to sf x)"
proof -
  from assms obtain e0 rest where i: "idle_elevators s = e0 # rest"
    by (cases "idle_elevators s") auto
  from closest_loop_first_minimum [of "[e0]" "[]" e0 "[]" sf rest]
  show ?thesis
    by (simp add: findClosestIdleElevator_some [OF i] i)
qed

lemma callElevator_invalid:
  "startFloor = endFloor \<or> startFloor > MAX_FLOORS cfg \<or> endFloor > MAX_FLOORS cfg \<Longrightarrow>
   callElevator cfg startFloor endFloor s = (rejected ''Invalid floor numbers.'', s)"
  by (simp add: callElevator_def)

lemma callElevator_no_idle:
  "\<not> (startFloor = endFloor \<or> startFloor > MAX_FLOORS cfg \<or> endFloor > MAX_FLOORS cfg) \<Longrightarrow>
   idle_elevators s = [] \<Longrightarrow>
   callElevator cfg startFloor endFloor s =
     (rejected ''No idle elevators available.'', logSql Select_all s)"
  by (simp add: callElevator_def findClosestIdleElevator_none)

text \<open>The state after an accepted call, for the selected elevator \<open>e\<close>.\<close>

definition dispatch :: "config \<Rightarrow> int \<Rightarrow> int \<Rightarrow> row \<Rightarrow> sys \<Rightarrow> sys" where
  "dispatch cfg startFloor endFloor e s =
     setTimeout (SecondLeg (elev_id e) startFloor endFloor (Suc (uuids s)))
       (\<bar>startFloor - current_floor e\<bar> * FLOOR_TRAVEL_TIME_MS cfg + DOOR_ACTION_TIME_MS cfg * 2)
       (moveElevator cfg (elev_id e) (current_floor e) startFloor (Suc (uuids s))
          (logEvent (elev_id e) ''call'' (Call_details startFloor endFloor (Suc (uuids s)))
             ((logSql Select_all s)\<lparr>uuids := Suc (Suc (uuids s))\<rparr>)))"

lemma callElevator_dispatch:
  assumes "\<not> (startFloor = endFloor \<or> startFloor > MAX_FLOORS cfg \<or> endFloor > MAX_FLOORS cfg)"
    and "fst (findClosestIdleElevator startFloor s) = Some e"
  shows "callElevator cfg startFloor endFloor s =
     (\<lparr>success = True, message = ''Elevator dispatched.'', res_jobId = Some (Suc (uuids s)),
       res_elevator_id = Some (elev_id e), status = Some ''Moving''\<rparr>,
      dispatch cfg startFloor endFloor e s)"
proof -
  have "findClosestIdleElevator startFloor s = (Some e, logSql Select_all s)"
    using assms(2)
    by (auto simp: findClosestIdleElevator_def getElevators_def Let_def split: list.splits)
  then show ?thesis
    using assms(1) by (simp add: callElevator_def uuidv4_def Let_def dispatch_def)
qed

text \<open>
  Most operations hand out no job id, only move the supply of tokens forward and keep the
  ids of the table as they are.
\<close>

definition keeps :: "sys \<Rightarrow> sys \<Rightarrow> bool" where
  "keeps s s' \<longleftrightarrow>
     uuids s \<le> uuids s' \<and> issued_job_ids s' = issued_job_ids s \<and>
     map elev_id (elevators s') = map elev_id (elevators s)"

lemma keeps_refl [simp]: "keeps s s"
  by (simp add: keeps_def)

lemma keeps_trans: "keeps s s1 \<Longrightarrow> keeps s1 s2 \<Longrightarrow> keeps s s2"
  by (auto simp: keeps_def)

lemma issued_logEvent:
  "issued_job_ids (logEvent i ty d s) = issued_job_ids s @ job_of_details d"
  by (simp add: issued_job_ids_def logEvent_event_logs)

lemma issued_logSql [simp]: "issued_job_ids (logSql q s) = issued_job_ids s"
  by (simp add: issued_job_ids_def)

lemma issued_elevators_update [simp]:
  "issued_job_ids (s\<lparr>elevators := x\<rparr>) = issued_job_ids s"
  "issued_job_ids (s\<lparr>timers := y\<rparr>) = issued_job_ids s"
  "issued_job_ids (s\<lparr>now := z\<rparr>) = issued_job_ids s"
  "issued_job_ids (s\<lparr>uuids := w\<rparr>) = issued_job_ids s"
  by (simp_all add: issued_job_ids_def)

lemma keeps_logSql [simp]: "keeps s (logSql q s)"
  by (simp add: keeps_def)

lemma keeps_logEvent: "job_of_details d = [] \<Longrightarrow> keeps s (logEvent i ty d s)"
  by (simp add: keeps_def issued_logEvent)

lemma keeps_setTimeout [simp]: "keeps s (setTimeout cb d s)"
  by (simp add: keeps_def issued_job_ids_def)

lemma keeps_updateElevatorState [simp]: "keeps s (updateElevatorState i u s)"
proof (cases "find (id_matches (Num i)) (elevators s)")
  case None
  then show ?thesis by (simp add: updateElevatorState_missing)
next
  case (Some r)
  have "map elev_id (map (\<lambda>x. if elev_id x = i then update_row (parse_row r) u x else x) (elevators s))
      = map elev_id (elevators s)"
    by (induction "elevators s") auto
  then show ?thesis
    by (simp add: updateElevatorState_found [OF Some] keeps_def issued_logEvent)
qed

lemma keeps_closeDoors [simp]: "keeps s (closeDoors i f s)"
  unfolding closeDoors_def
  by (rule keeps_trans [OF keeps_updateElevatorState keeps_logEvent]) simp

lemma keeps_arriveAtFloor [simp]: "keeps s (arriveAtFloor cfg i f s)"
  unfolding arriveAtFloor_def
  by (rule keeps_trans [OF keeps_updateElevatorState keeps_trans [OF keeps_logEvent keeps_setTimeout]])
     simp

lemma keeps_floorIterator [simp]: "keeps s (floorIterator cfg i e dir cur s)"
  unfolding floorIterator_def Let_def
  by (auto intro: keeps_trans [OF keeps_updateElevatorState keeps_setTimeout])

lemma keeps_moveElevator [simp]: "keeps s (moveElevator cfg i a b j s)"
proof (cases "find (id_matches (Num i)) (elevators s)")
  case None
  then show ?thesis by (simp add: moveElevator_def getElevatorById_def Let_def)
next
  case (Some r)
  then show ?thesis
    by (simp add: moveElevator_def getElevatorById_def Let_def)
       (blast intro: keeps_trans keeps_logSql keeps_updateElevatorState keeps_floorIterator)
qed

lemma keeps_run_task [simp]: "keeps s (run_task cfg cb s)"
  by (cases cb) simp_all

lemma keeps_fire_next [simp]: "keeps s (fire_next cfg s)"
proof (cases "timers s")
  case Nil
  then show ?thesis by (simp add: fire_next_def)
next
  case (Cons t ts)
  let ?s1 = "s\<lparr>timers := remove1 (earliest t ts) (t # ts), now := max (now s) (fst (earliest t ts))\<rparr>"
  have "keeps s ?s1" by (simp add: keeps_def issued_job_ids_def)
  moreover have "keeps ?s1 (run_task cfg (snd (earliest t ts)) ?s1)" by simp
  ultimately show ?thesis
    using Cons by (simp add: fire_next_def Let_def keeps_trans)
qed

lemma run_until_preserves:
  "P s \<Longrightarrow> (\<And>s. P s \<Longrightarrow> P (fire_next cfg s)) \<Longrightarrow> (\<And>s t. P s \<Longrightarrow> P (s\<lparr>now := t\<rparr>)) \<Longrightarrow>
   P (run_until cfg limit s)"
proof (induction cfg limit s rule: run_until.induct)
  case (1 cfg limit s)
  note step = "1.prems"(2) and clock = "1.prems"(3)
  show ?case
  proof (cases "timers s")
    case Nil
    then show ?thesis
      using clock [OF "1.prems"(1)]
      by (simp del: run_until.simps add: run_until.simps [of cfg limit s])
  next
    case (Cons t ts)
    show ?thesis
    proof (cases "fst (earliest t ts) \<le> limit")
      case True
      have "P (run_until cfg limit (fire_next cfg s))"
        by (rule "1.IH" [OF Cons True step [OF "1.prems"(1)] step clock])
      then show ?thesis
        using Cons True by (simp del: run_until.simps add: run_until.simps [of cfg limit s])
    next
      case False
      then show ?thesis
        using Cons clock [OF "1.prems"(1)]
        by (simp del: run_until.simps add: run_until.simps [of cfg limit s])
    qed
  qed
qed

lemma keeps_getElevatorStatus [simp]: "keeps s (snd (getElevatorStatus v s))"
  by (simp add: getElevatorStatus_def getElevators_def getElevatorById_def Let_def
      split: option.splits)

lemma keeps_delete_uuids:
  "uuids (delete_elevator i s) = uuids s" "issued_job_ids (delete_elevator i s) = issued_job_ids s"
  by (simp_all add: delete_elevator_def issued_job_ids_def)

definition job_ids_below_supply :: "sys \<Rightarrow> bool" where
  "job_ids_below_supply s \<longleftrightarrow> (\<forall>j \<in> set (issued_job_ids s). j < uuids s)"

lemma keeps_below: "keeps s s' \<Longrightarrow> job_ids_below_supply s \<Longrightarrow> job_ids_below_supply s'"
  by (auto simp: keeps_def job_ids_below_supply_def)

lemma dispatch_issued:
  "issued_job_ids (dispatch cfg a b e s) = issued_job_ids s @ [Suc (uuids s)]
   \<and> Suc (Suc (uuids s)) < uuids (dispatch cfg a b e s)
   \<and> map elev_id (elevators (dispatch cfg a b e s)) = map elev_id (elevators s)"
proof -
  let ?s2 = "(logSql Select_all s)\<lparr>uuids := Suc (Suc (uuids s))\<rparr>"
  let ?s3 = "logEvent (elev_id e) ''call'' (Call_details a b (Suc (uuids s))) ?s2"
  have 3: "issued_job_ids ?s3 = issued_job_ids s @ [Suc (uuids s)]" "uuids ?s3 = Suc (Suc (Suc (uuids s)))"
    "elevators ?s3 = elevators s"
    by (simp_all add: issued_logEvent)
  have "keeps ?s3 (dispatch cfg a b e s)"
    unfolding dispatch_def by (rule keeps_trans [OF keeps_moveElevator keeps_setTimeout])
  with 3 show ?thesis by (auto simp: keeps_def)
qed

lemma callElevator_cases:
  "callElevator cfg a b s = (rejected ''Invalid floor numbers.'', s)
   \<or> callElevator cfg a b s = (rejected ''No idle elevators available.'', logSql Select_all s)
   \<or> (\<exists>e. \<not> (a = b \<or> a > MAX_FLOORS cfg \<or> b > MAX_FLOORS cfg)
         \<and> fst (findClosestIdleElevator a s) = Some e
         \<and> callElevator cfg a b s =
             (\<lparr>success = True, message = ''Elevator dispatched.'', res_jobId = Some (Suc (uuids s)),
               res_elevator_id = Some (elev_id e), status = Some ''Moving''\<rparr>,
              dispatch cfg a b e s))"
proof (cases "a = b \<or> a > MAX_FLOORS cfg \<or> b > MAX_FLOORS cfg")
  case True
  then show ?thesis by (simp add: callElevator_invalid)
next
  case False
  show ?thesis
  proof (cases "idle_elevators s")
    case Nil
    with False show ?thesis by (simp add: callElevator_no_idle)
  next
    case (Cons e0 rest)
    then have "fst (findClosestIdleElevator a s) = Some (closest_loop a rest e0 (distance_to a e0))"
      by (simp add: findClosestIdleElevator_some)
    with False callElevator_dispatch [of a b cfg s] show ?thesis by blast
  qed
qed

lemma reachable_job_ids_below_supply: "reachable cfg s \<Longrightarrow> job_ids_below_supply s"
proof (induction rule: reachable.induct)
  case (init numElevators)
  then show ?case
    by (simp add: job_ids_below_supply_def issued_job_ids_def initializeDb_def empty_sys_def)
next
  case (call s startFloor endFloor)
  from callElevator_cases [of cfg startFloor endFloor s] show ?case
  proof (elim disjE exE conjE)
    assume "callElevator cfg startFloor endFloor s = (rejected ''Invalid floor numbers.'', s)"
    with call show ?thesis by simp
  next
    assume "callElevator cfg startFloor endFloor s =
      (rejected ''No idle elevators available.'', logSql Select_all s)"
    with call keeps_below [OF keeps_logSql] show ?thesis by simp
  next
    fix e
    assume "callElevator cfg startFloor endFloor s =
      (\<lparr>success = True, message = ''Elevator dispatched.'', res_jobId = Some (Suc (uuids s)),
        res_elevator_id = Some (elev_id e), status = Some ''Moving''\<rparr>,
       dispatch cfg startFloor endFloor e s)"
    with call dispatch_issued [of cfg startFloor endFloor e s] show ?thesis
      by (auto simp: job_ids_below_supply_def)
  qed
next
  case (status s elevatorId)
  then show ?case using keeps_below [OF keeps_getElevatorStatus] by blast
next
  case (fire s)
  then show ?case using keeps_below [OF keeps_fire_next] by blast
next
  case (wait s limit)
  show ?case
  proof (rule run_until_preserves)
    show "job_ids_below_supply s" by (rule wait.IH)
  next
    fix s' assume "job_ids_below_supply s'"
    then show "job_ids_below_supply (fire_next cfg s')" using keeps_below [OF keeps_fire_next] by blast
  next
    fix s' :: sys and t assume "job_ids_below_supply s'"
    then show "job_ids_below_supply (s'\<lparr>now := t\<rparr>)"
      by (simp add: job_ids_below_supply_def issued_job_ids_def)
  qed
next
  case (delete s i)
  then show ?case by (simp add: job_ids_below_supply_def keeps_delete_uuids)
qed

lemma moveElevator_timers_found:
  assumes "find (id_matches (Num i)) (elevators s) = Some r"
  shows "timers (moveElevator cfg i a b j s) = timers s @
     [if a = b then (now s + timer_delay (DOOR_ACTION_TIME_MS cfg), CloseDoors i b)
      else (now s + timer_delay (FLOOR_TRAVEL_TIME_MS cfg),
            FloorIterator i b (if b > a then Up else Down) (if b > a then a + 1 else a - 1))]"
  using assms
  by (simp add: moveElevator_def getElevatorById_def Let_def floorIterator_def
      arriveAtFloor_timers timers_setTimeout)

lemma find_id_matches_member:
  "e \<in> set xs \<Longrightarrow> \<exists>r. find (id_matches (Num (elev_id e))) xs = Some r"
  by (induction xs) auto

lemma insert_loop_eq: "insert_loop i n tbl = tbl @ map initial_row [i..n]"
proof (induction i n tbl rule: insert_loop.induct)
  case (1 i n tbl)
  show ?case
  proof (cases "i \<le> n")
    case True
    then show ?thesis
      using 1 by (simp del: insert_loop.simps add: insert_loop.simps [of i n tbl] upto_rec1)
  next
    case False
    then show ?thesis by (simp del: insert_loop.simps add: insert_loop.simps [of i n tbl])
  qed
qed

definition ids_ascending :: "sys \<Rightarrow> bool" where
  "ids_ascending s \<longleftrightarrow> sorted_wrt (<) (map elev_id (elevators s))"

lemma elev_id_initial_row [simp]: "elev_id (initial_row i) = i"
  by (simp add: initial_row_def)

lemma ids_ascending_init: "ids_ascending (initializeDb n empty_sys)"
proof -
  have "map elev_id (map initial_row [1..n]) = [1..n]"
    by (simp add: comp_def)
  moreover have "sorted_wrt (<) [1..n]"
    by (simp add: strict_sorted_iff)
  ultimately show ?thesis
    by (simp add: ids_ascending_def initializeDb_def empty_sys_def insert_loop_eq
        del: insert_loop.simps)
qed

lemma keeps_ids: "keeps s s' \<Longrightarrow> ids_ascending s \<Longrightarrow> ids_ascending s'"
  by (simp add: keeps_def ids_ascending_def)

lemma reachable_ids_ascending: "reachable cfg s \<Longrightarrow> ids_ascending s"
proof (induction rule: reachable.induct)
  case (init numElevators)
  show ?case by (rule ids_ascending_init)
next
  case (call s startFloor endFloor)
  from callElevator_cases [of cfg startFloor endFloor s] show ?case
  proof (elim disjE exE conjE)
    assume "callElevator cfg startFloor endFloor s = (rejected ''Invalid floor numbers.'', s)"
    with call show ?thesis by simp
  next
    assume "callElevator cfg startFloor endFloor s =
      (rejected ''No idle elevators available.'', logSql Select_all s)"
    with call keeps_ids [OF keeps_logSql] show ?thesis by simp
  next
    fix e
    assume "callElevator cfg startFloor endFloor s =
      (\<lparr>success = True, message = ''Elevator dispatched.'', res_jobId = Some (Suc (uuids s)),
        res_elevator_id = Some (elev_id e), status = Some ''Moving''\<rparr>,
       dispatch cfg startFloor endFloor e s)"
    with call dispatch_issued [of cfg startFloor endFloor e s] show ?thesis
      by (simp add: ids_ascending_def)
  qed
next
  case (status s elevatorId)
  then show ?case using keeps_ids [OF keeps_getElevatorStatus] by blast
next
  case (fire s)
  then show ?case using keeps_ids [OF keeps_fire_next] by blast
next
  case (wait s limit)
  show ?case
  proof (rule run_until_preserves)
    show "ids_ascending s" by (rule wait.IH)
  next
    fix s' assume "ids_ascending s'"
    then show "ids_ascending (fire_next cfg s')" using keeps_ids [OF keeps_fire_next] by blast
  next
    fix s' :: sys and t assume "ids_ascending s'"
    then show "ids_ascending (s'\<lparr>now := t\<rparr>)" by (simp add: ids_ascending_def)
  qed
next
  case (delete s i)
  have "sorted_wrt (<) (map elev_id (filter Q xs))" if "sorted_wrt (<) (map elev_id xs)"
    for Q and xs :: "row list"
    using that by (induction xs) auto
  with delete.IH show ?case
    by (simp add: ids_ascending_def delete_elevator_def)
qed

lemma find_unique:
  assumes "sorted_wrt (<) (map elev_id xs)" "r \<in> set xs" "elev_id r = i"
  shows "find (id_matches (Num i)) xs = Some r"
  using assms
proof (induction xs)
  case Nil
  then show ?case by simp
next
  case (Cons a xs)
  then show ?case by (cases "elev_id a = i") (auto simp: rev_image_eqI)
qed

lemma find_none: "\<forall>r \<in> set xs. \<not> id_matches n r \<Longrightarrow> find (id_matches n) xs = None"
  by (simp add: find_None_iff)

lemma getElevatorStatus_truthy:
  "truthy v \<Longrightarrow> fst (getElevatorStatus v s) =
     (case find (id_matches (parseInt v)) (elevators s) of
        None \<Rightarrow> []
      | Some r \<Rightarrow> [with_job_queue r (Array (JSON_parse (job_queue r)))])"
  by (simp add: getElevatorStatus_def getElevatorById_def Let_def parse_row_def
      with_job_queue_def split: option.splits)

lemma getElevatorStatus_falsy:
  "\<not> truthy v \<Longrightarrow> fst (getElevatorStatus v s) =
     map (\<lambda>r. with_job_queue r (Text (job_queue r))) (elevators s)"
  by (simp add: getElevatorStatus_def getElevators_def Let_def)

lemma getElevatorStatus_elevators [simp]:
  "elevators (snd (getElevatorStatus v s)) = elevators s"
  "event_logs (snd (getElevatorStatus v s)) = event_logs s"
  "timers (snd (getElevatorStatus v s)) = timers s"
  by (simp_all add: getElevatorStatus_def getElevators_def getElevatorById_def Let_def
      split: option.splits)

lemma elev_id_with_job_queue [simp]: "elev_id (with_job_queue r v) = elev_id r"
  by (simp add: with_job_queue_def)

lemma find_absent:
  "\<forall>r \<in> set xs. elev_id r \<noteq> i \<Longrightarrow> find (id_matches (Num i)) xs = None"
  by (simp add: find_None_iff)

lemma logSql_sql_only [simp]:
  "event_logs (logSql q s) = event_logs s"
  by (simp add: logSql_def uuidv4_def)

section \<open>The state-machine update\<close>




section \<open>Dispatch\<close>

text \<open>
  C2 (as amended). \<open>callElevator\<close> returns \<open>success = false\<close> with the message
  "Invalid floor numbers." when the two floors are equal or either exceeds \<open>MAX_FLOORS\<close>,
  and then nothing at all is changed: no elevator record, no log, no timer. (The code
  has no lower bound on floors.)
\<close>

theorem callElevator_rejects_invalid_floors:
  assumes "startFloor = endFloor \<or> startFloor > MAX_FLOORS cfg \<or> endFloor > MAX_FLOORS cfg"
  shows "success (fst (callElevator cfg startFloor endFloor s)) = False
     \<and> message (fst (callElevator cfg startFloor endFloor s)) = ''Invalid floor numbers.''
     \<and> snd (callElevator cfg startFloor endFloor s) = s"
  using assms by (simp add: callElevator_def rejected_def)

theorem callElevator_rejects_invalid_floors_witness:
  "((1::int) = 1 \<or> 1 > MAX_FLOORS default_config \<or> 1 > MAX_FLOORS default_config)
   \<and> success (fst (callElevator default_config 1 1 fresh_sys)) = False
   \<and> message (fst (callElevator default_config 1 1 fresh_sys)) = ''Invalid floor numbers.''
   \<and> snd (callElevator default_config 1 1 fresh_sys) = fresh_sys"
proof -
  have h: "(1::int) = 1 \<or> 1 > MAX_FLOORS default_config \<or> 1 > MAX_FLOORS default_config"
    by simp
  from callElevator_rejects_invalid_floors [OF h, of fresh_sys] h show ?thesis by blast
qed

text \<open>
  The claim as written fails for a floor below floor 1: the call from floor 0 to floor 5
  is accepted in a fresh building and an elevator is set in motion.
\<close>

theorem callElevator_below_minimum_counterexample:
  "(0::int) < 1
   \<and> success (fst (callElevator default_config 0 5 fresh_sys)) = True
   \<and> elevators (snd (callElevator default_config 0 5 fresh_sys)) \<noteq> elevators fresh_sys"
  by code_simp

text \<open>
  C5. When no elevator is Idle, a call whose floors pass validation returns
  \<open>success = false\<close> with the message "No idle elevators available.", and no elevator
  record is changed (nor is any event logged or timer registered).
\<close>

theorem callElevator_no_idle_elevator:
  assumes "\<not> (startFloor = endFloor \<or> startFloor > MAX_FLOORS cfg \<or> endFloor > MAX_FLOORS cfg)"
    and "\<forall>e \<in> set (elevators s). state e \<noteq> Idle"
  shows "success (fst (callElevator cfg startFloor endFloor s)) = False
     \<and> message (fst (callElevator cfg startFloor endFloor s)) = ''No idle elevators available.''
     \<and> elevators (snd (callElevator cfg startFloor endFloor s)) = elevators s
     \<and> event_logs (snd (callElevator cfg startFloor endFloor s)) = event_logs s
     \<and> timers (snd (callElevator cfg startFloor endFloor s)) = timers s"
proof -
  have "idle_elevators s = []"
    using assms(2) by (simp add: idle_elevators_def filter_empty_conv)
  from callElevator_no_idle [OF assms(1) this] show ?thesis
    by (simp add: rejected_def)
qed

theorem callElevator_no_idle_elevator_witness:
  "\<not> ((3::int) = 5 \<or> 3 > MAX_FLOORS default_config \<or> 5 > MAX_FLOORS default_config)
   \<and> list_all (\<lambda>e. state e \<noteq> Idle) (elevators busy_sys)
   \<and> success (fst (callElevator default_config 3 5 busy_sys)) = False
   \<and> message (fst (callElevator default_config 3 5 busy_sys)) = ''No idle elevators available.''
   \<and> elevators (snd (callElevator default_config 3 5 busy_sys)) = elevators busy_sys"
proof -
  have h1: "\<not> ((3::int) = 5 \<or> 3 > MAX_FLOORS default_config \<or> 5 > MAX_FLOORS default_config)"
    by code_simp
  have h2: "list_all (\<lambda>e. state e \<noteq> Idle) (elevators busy_sys)"
    by code_simp
  then have h2': "\<forall>e \<in> set (elevators busy_sys). state e \<noteq> Idle"
    by (simp add: list_all_iff)
  from callElevator_no_idle_elevator [OF h1 h2'] h1 h2 show ?thesis by blast
qed

text \<open>
  C3. For a call whose floors pass validation, with at least one Idle elevator, the
  elevator selected is an Idle one at minimal distance \<open>|current_floor - start_floor|\<close>
  from the start floor among the Idle elevators, and it is the first such in the order of
  the table: every Idle elevator before it is strictly farther away.
\<close>

theorem callElevator_selects_first_closest_idle:
  assumes "\<not> (startFloor = endFloor \<or> startFloor > MAX_FLOORS cfg \<or> endFloor > MAX_FLOORS cfg)"
    and "idle_elevators s \<noteq> []"
  shows "\<exists>pre e post. idle_elevators s = pre @ e # post
     \<and> fst (findClosestIdleElevator startFloor s) = Some e
     \<and> res_elevator_id (fst (callElevator cfg startFloor endFloor s)) = Some (elev_id e)
     \<and> (\<forall>x \<in> set pre. distance_to startFloor e < distance_to startFloor x)
     \<and> (\<forall>x \<in> set post. distance_to startFloor e \<le> distance_to startFloor x)"
proof -
  from findClosestIdleElevator_first_minimum [OF assms(2), of startFloor]
  obtain pre e post where e: "fst (findClosestIdleElevator startFloor s) = Some e"
    "idle_elevators s = pre @ e # post"
    "\<forall>x \<in> set pre. distance_to startFloor e < distance_to startFloor x"
    "\<forall>x \<in> set post. distance_to startFloor e \<le> distance_to startFloor x"
    by blast
  from callElevator_dispatch [OF assms(1) e(1)]
  have "res_elevator_id (fst (callElevator cfg startFloor endFloor s)) = Some (elev_id e)"
    by simp
  with e show ?thesis by blast
qed

theorem callElevator_selects_first_closest_idle_witness:
  "\<not> ((5::int) = 15 \<or> 5 > MAX_FLOORS default_config \<or> 15 > MAX_FLOORS default_config)
   \<and> idle_elevators scenario_sys \<noteq> []
   \<and> (\<exists>pre e post. idle_elevators scenario_sys = pre @ e # post
        \<and> fst (findClosestIdleElevator 5 scenario_sys) = Some e
        \<and> res_elevator_id (fst (callElevator default_config 5 15 scenario_sys)) = Some (elev_id e)
        \<and> (\<forall>x \<in> set pre. distance_to 5 e < distance_to 5 x)
        \<and> (\<forall>x \<in> set post. distance_to 5 e \<le> distance_to 5 x))
   \<and> res_elevator_id (fst (callElevator default_config 5 15 scenario_sys)) = Some 1"
proof -
  have h1: "\<not> ((5::int) = 15 \<or> 5 > MAX_FLOORS default_config \<or> 15 > MAX_FLOORS default_config)"
    by code_simp
  have h2: "idle_elevators scenario_sys \<noteq> []"
    by code_simp
  have h3: "res_elevator_id (fst (callElevator default_config 5 15 scenario_sys)) = Some 1"
    by code_simp
  from callElevator_selects_first_closest_idle [OF h1 h2] h1 h2 h3 show ?thesis by blast
qed

text \<open>
  C6. In every reachable state, a call whose floors pass validation, with at least one
  Idle elevator, returns at once (the clock has not moved) with \<open>success = true\<close>, the id
  of the selected elevator, status "Moving" and a job id that no earlier call was given;
  the first step of leg 1 and the start of leg 2 are then the two timers it has registered.
\<close>

theorem callElevator_dispatches:
  assumes "reachable cfg s"
    and "\<not> (startFloor = endFloor \<or> startFloor > MAX_FLOORS cfg \<or> endFloor > MAX_FLOORS cfg)"
    and "idle_elevators s \<noteq> []"
  shows "\<exists>e j. fst (findClosestIdleElevator startFloor s) = Some e
     \<and> fst (callElevator cfg startFloor endFloor s) =
         \<lparr>success = True, message = ''Elevator dispatched.'', res_jobId = Some j,
          res_elevator_id = Some (elev_id e), status = Some ''Moving''\<rparr>
     \<and> j \<notin> set (issued_job_ids s)
     \<and> issued_job_ids (snd (callElevator cfg startFloor endFloor s)) = issued_job_ids s @ [j]
     \<and> now (snd (callElevator cfg startFloor endFloor s)) = now s
     \<and> length (timers (snd (callElevator cfg startFloor endFloor s))) = length (timers s) + 2
     \<and> set (timers (snd (callElevator cfg startFloor endFloor s))) = set (timers s) \<union>
         {if current_floor e = startFloor
          then (now s + timer_delay (DOOR_ACTION_TIME_MS cfg), CloseDoors (elev_id e) startFloor)
          else (now s + timer_delay (FLOOR_TRAVEL_TIME_MS cfg),
                FloorIterator (elev_id e) startFloor
                  (if startFloor > current_floor e then Up else Down)
                  (if startFloor > current_floor e then current_floor e + 1
                   else current_floor e - 1)),
          (now s + timer_delay (\<bar>startFloor - current_floor e\<bar> * FLOOR_TRAVEL_TIME_MS cfg
                                  + DOOR_ACTION_TIME_MS cfg * 2),
           SecondLeg (elev_id e) startFloor endFloor j)}"
proof -
  from findClosestIdleElevator_first_minimum [OF assms(3), of startFloor]
  obtain pre e post where e: "fst (findClosestIdleElevator startFloor s) = Some e"
    "idle_elevators s = pre @ e # post"
    by blast
  let ?j = "Suc (uuids s)"
  let ?s' = "dispatch cfg startFloor endFloor e s"
  have call: "callElevator cfg startFloor endFloor s =
     (\<lparr>success = True, message = ''Elevator dispatched.'', res_jobId = Some ?j,
       res_elevator_id = Some (elev_id e), status = Some ''Moving''\<rparr>, ?s')"
    by (rule callElevator_dispatch [OF assms(2) e(1)])
  have fresh: "?j \<notin> set (issued_job_ids s)"
    using reachable_job_ids_below_supply [OF assms(1)]
    by (auto simp: job_ids_below_supply_def)
  have "e \<in> set (idle_elevators s)" using e(2) by simp
  then have "e \<in> set (elevators s)" by (simp add: idle_elevators_def)
  then obtain r where r: "find (id_matches (Num (elev_id e))) (elevators s) = Some r"
    using find_id_matches_member by blast
  let ?s3 = "logEvent (elev_id e) ''call'' (Call_details startFloor endFloor ?j)
               ((logSql Select_all s)\<lparr>uuids := Suc (Suc (uuids s))\<rparr>)"
  have r3: "find (id_matches (Num (elev_id e))) (elevators ?s3) = Some r"
    using r by simp
  have tm: "timers ?s' = timers s @
         [if current_floor e = startFloor
          then (now s + timer_delay (DOOR_ACTION_TIME_MS cfg), CloseDoors (elev_id e) startFloor)
          else (now s + timer_delay (FLOOR_TRAVEL_TIME_MS cfg),
                FloorIterator (elev_id e) startFloor
                  (if startFloor > current_floor e then Up else Down)
                  (if startFloor > current_floor e then current_floor e + 1
                   else current_floor e - 1)),
          (now s + timer_delay (\<bar>startFloor - current_floor e\<bar> * FLOOR_TRAVEL_TIME_MS cfg
                                  + DOOR_ACTION_TIME_MS cfg * 2),
           SecondLeg (elev_id e) startFloor endFloor ?j)]"
    unfolding dispatch_def
    by (simp add: timers_setTimeout moveElevator_timers_found [OF r3] moveElevator_now)
  have nw: "now ?s' = now s"
    unfolding dispatch_def by (simp add: moveElevator_now)
  have iss: "issued_job_ids ?s' = issued_job_ids s @ [?j]"
    using dispatch_issued [of cfg startFloor endFloor e s] by simp
  have len: "length (timers ?s') = length (timers s) + 2"
    by (simp add: tm)
  have st: "set (timers ?s') = set (timers s) \<union>
         {if current_floor e = startFloor
          then (now s + timer_delay (DOOR_ACTION_TIME_MS cfg), CloseDoors (elev_id e) startFloor)
          else (now s + timer_delay (FLOOR_TRAVEL_TIME_MS cfg),
                FloorIterator (elev_id e) startFloor
                  (if startFloor > current_floor e then Up else Down)
                  (if startFloor > current_floor e then current_floor e + 1
                   else current_floor e - 1)),
          (now s + timer_delay (\<bar>startFloor - current_floor e\<bar> * FLOOR_TRAVEL_TIME_MS cfg
                                  + DOOR_ACTION_TIME_MS cfg * 2),
           SecondLeg (elev_id e) startFloor endFloor ?j)}"
    unfolding tm by (simp add: Un_commute insert_commute)
  show ?thesis
    using e(1) call fresh iss nw len st by (intro exI [of _ e] exI [of _ ?j]) simp
qed

theorem callElevator_dispatches_witness:
  "reachable default_config called_sys
   \<and> \<not> ((3::int) = 5 \<or> 3 > MAX_FLOORS default_config \<or> 5 > MAX_FLOORS default_config)
   \<and> idle_elevators called_sys \<noteq> []
   \<and> issued_job_ids called_sys = [1]
   \<and> (\<exists>e j. fst (findClosestIdleElevator 3 called_sys) = Some e
        \<and> fst (callElevator default_config 3 5 called_sys) =
            \<lparr>success = True, message = ''Elevator dispatched.'', res_jobId = Some j,
             res_elevator_id = Some (elev_id e), status = Some ''Moving''\<rparr>
        \<and> j \<notin> set (issued_job_ids called_sys)
        \<and> length (timers (snd (callElevator default_config 3 5 called_sys))) =
            length (timers called_sys) + 2)
   \<and> res_elevator_id (fst (callElevator default_config 3 5 called_sys)) = Some 2
   \<and> res_jobId (fst (callElevator default_config 3 5 called_sys)) = Some 9"
proof -
  have h0: "reachable default_config called_sys"
    unfolding called_sys_def fresh_sys_def by (intro reachable.call reachable.init)
  have h1: "\<not> ((3::int) = 5 \<or> 3 > MAX_FLOORS default_config \<or> 5 > MAX_FLOORS default_config)"
    by code_simp
  have h2: "idle_elevators called_sys \<noteq> []"
    by code_simp
  have h3: "issued_job_ids called_sys = [1]"
    by code_simp
  have h4: "res_elevator_id (fst (callElevator default_config 3 5 called_sys)) = Some 2"
    "res_jobId (fst (callElevator default_config 3 5 called_sys)) = Some 9"
    by code_simp+
  from callElevator_dispatches [OF h0 h1 h2] obtain e j where
    "fst (findClosestIdleElevator 3 called_sys) = Some e"
    "fst (callElevator default_config 3 5 called_sys) =
       \<lparr>success = True, message = ''Elevator dispatched.'', res_jobId = Some j,
        res_elevator_id = Some (elev_id e), status = Some ''Moving''\<rparr>"
    "j \<notin> set (issued_job_ids called_sys)"
    "length (timers (snd (callElevator default_config 3 5 called_sys))) =
       length (timers called_sys) + 2"
    by blast
  with h0 h1 h2 h3 h4 show ?thesis by blast
qed

section \<open>Status query\<close>

text \<open>
  C9 (as amended). In every reachable state the status query is a pure read of the
  elevator records and returns: the empty list for a truthy \<open>elevator_id\<close> (a non-zero
  number, a non-empty string) whose parsed value is the id of no record; for a truthy
  \<open>elevator_id\<close> that parses to the id of a record, the singleton list of that record as
  stored, with its job queue parsed; and for no \<open>elevator_id\<close>, or a falsy one (0,
  \<open>NaN\<close>, the empty string), all records in table order, which is strictly ascending id
  order.
\<close>

theorem getElevatorStatus_result:
  assumes "reachable cfg s"
  shows "(truthy v \<and> (\<forall>r \<in> set (elevators s). \<not> id_matches (parseInt v) r)
            \<longrightarrow> fst (getElevatorStatus v s) = [])
     \<and> (\<forall>r \<in> set (elevators s). truthy v \<and> id_matches (parseInt v) r
            \<longrightarrow> fst (getElevatorStatus v s) =
                  [with_job_queue r (Array (JSON_parse (job_queue r)))])
     \<and> (\<not> truthy v
            \<longrightarrow> fst (getElevatorStatus v s) =
                  map (\<lambda>r. with_job_queue r (Text (job_queue r))) (elevators s)
              \<and> sorted_wrt (<) (map elev_id (fst (getElevatorStatus v s))))
     \<and> elevators (snd (getElevatorStatus v s)) = elevators s"
proof -
  have asc: "sorted_wrt (<) (map elev_id (elevators s))"
    using reachable_ids_ascending [OF assms] by (simp add: ids_ascending_def)
  have a: "fst (getElevatorStatus v s) = []"
    if "truthy v" "\<forall>r \<in> set (elevators s). \<not> id_matches (parseInt v) r"
    using that by (simp add: getElevatorStatus_truthy find_none)
  have b: "fst (getElevatorStatus v s) = [with_job_queue r (Array (JSON_parse (job_queue r)))]"
    if "r \<in> set (elevators s)" "truthy v" "id_matches (parseInt v) r" for r
  proof -
    from that(3) obtain i where i: "parseInt v = Num i" "elev_id r = i"
      by (cases "parseInt v") auto
    from find_unique [OF asc that(1) i(2)] that(2) i(1) show ?thesis
      by (simp add: getElevatorStatus_truthy)
  qed
  have c: "fst (getElevatorStatus v s) =
             map (\<lambda>r. with_job_queue r (Text (job_queue r))) (elevators s)
           \<and> sorted_wrt (<) (map elev_id (fst (getElevatorStatus v s)))"
    if "\<not> truthy v"
    using that asc by (simp add: getElevatorStatus_falsy comp_def)
  show ?thesis
    using a b c getElevatorStatus_elevators(1) [of v s] by blast
qed

theorem getElevatorStatus_result_witness:
  "reachable default_config fresh_sys
   \<and> truthy (JS_string ''7'')
   \<and> list_all (\<lambda>r. \<not> id_matches (parseInt (JS_string ''7'')) r) (elevators fresh_sys)
   \<and> fst (getElevatorStatus (JS_string ''7'') fresh_sys) = []
   \<and> truthy (JS_string ''2'')
   \<and> id_matches (parseInt (JS_string ''2'')) (initial_row 2)
   \<and> initial_row 2 \<in> set (elevators fresh_sys)
   \<and> fst (getElevatorStatus (JS_string ''2'') fresh_sys) =
        [with_job_queue (initial_row 2) (Array [])]
   \<and> \<not> truthy JS_undefined
   \<and> map elev_id (fst (getElevatorStatus JS_undefined fresh_sys)) = [1, 2, 3]"
proof -
  have r: "reachable default_config fresh_sys"
    unfolding fresh_sys_def by (rule reachable.init)
  have e: "elevators fresh_sys = [initial_row 1, initial_row 2, initial_row 3]"
    by code_simp
  have p7: "parseInt_string ''7'' = Num 7" and p2: "parseInt_string ''2'' = Num 2"
    by code_simp+
  have t: "truthy (JS_string ''7'')" "truthy (JS_string ''2'')" "\<not> truthy JS_undefined"
    by simp_all
  have n7: "\<forall>r \<in> set (elevators fresh_sys). \<not> id_matches (parseInt (JS_string ''7'')) r"
    by (simp add: e p7)
  have m2: "id_matches (parseInt (JS_string ''2'')) (initial_row 2)"
    "initial_row 2 \<in> set (elevators fresh_sys)"
    by (simp_all add: e p2)
  have q: "JSON_parse (job_queue (initial_row 2)) = []"
    by (simp add: initial_row_def)
  from getElevatorStatus_result [OF r, of "JS_string ''7''"] t n7
  have 1: "fst (getElevatorStatus (JS_string ''7'') fresh_sys) = []" by blast
  from getElevatorStatus_result [OF r, of "JS_string ''2''"] t m2 q
  have 2: "fst (getElevatorStatus (JS_string ''2'') fresh_sys) =
        [with_job_queue (initial_row 2) (Array [])]" by fastforce
  from getElevatorStatus_result [OF r, of JS_undefined] t
  have 3: "map elev_id (fst (getElevatorStatus JS_undefined fresh_sys)) = [1, 2, 3]"
    by (simp add: e comp_def)
  from r t n7 m2 1 2 3 show ?thesis by (simp add: list_all_iff)
qed

text \<open>
  The claim as written fails for the id 0: no elevator has it, yet the query for the
  number 0 returns all three elevators of a fresh building. So does the query for the
  empty string (the request \<open>?elevator_id=\<close>), which is the id of no elevator either.
\<close>

theorem getElevatorStatus_zero_counterexample:
  "list_all (\<lambda>r. elev_id r \<noteq> 0) (elevators fresh_sys)
   \<and> map elev_id (fst (getElevatorStatus (JS_number (Num 0)) fresh_sys)) = [1, 2, 3]
   \<and> fst (getElevatorStatus (JS_number (Num 0)) fresh_sys) \<noteq> []
   \<and> parseInt (JS_string []) = NaN
   \<and> map elev_id (fst (getElevatorStatus (JS_string []) fresh_sys)) = [1, 2, 3]"
  by code_simp

text \<open>
  C10. The two modes of the status query return snapshots of different shape. Asked for
  one elevator (a truthy \<open>elevator_id\<close> that finds a record), the snapshot's \<open>job_queue\<close>
  is the parsed array; asked for all (no or a falsy \<open>elevator_id\<close>), every snapshot's
  \<open>job_queue\<close> is the stored JSON text. So the snapshot of the same elevator is in the
  second list with its text, and no snapshot of the first list equals one of the second.
\<close>

theorem getElevatorStatus_shapes_differ:
  assumes "truthy v" and "\<not> truthy w"
    and "find (id_matches (parseInt v)) (elevators s) = Some r"
  shows "fst (getElevatorStatus v s) = [with_job_queue r (Array (JSON_parse (job_queue r)))]
     \<and> fst (getElevatorStatus w s) =
         map (\<lambda>x. with_job_queue x (Text (job_queue x))) (elevators s)
     \<and> with_job_queue r (Text (job_queue r)) \<in> set (fst (getElevatorStatus w s))
     \<and> (\<forall>x \<in> set (fst (getElevatorStatus v s)). \<forall>y \<in> set (fst (getElevatorStatus w s)). x \<noteq> y)"
proof -
  have r: "r \<in> set (elevators s)"
    using assms(3) by (auto simp: find_Some_iff)
  have "with_job_queue r (Array (JSON_parse (job_queue r))) \<noteq> with_job_queue x (Text (job_queue x))"
    for x :: row
    by (simp add: with_job_queue_def)
  then show ?thesis
    using assms r by (auto simp: getElevatorStatus_truthy getElevatorStatus_falsy)
qed

theorem getElevatorStatus_shapes_differ_witness:
  "truthy (JS_string ''1'') \<and> \<not> truthy JS_undefined
   \<and> find (id_matches (parseInt (JS_string ''1''))) (elevators busy_sys) =
       Some \<lparr>elev_id = 1, current_floor = 1, state = Moving, direction = Up,
             job_queue = JSON_stringify [\<lparr>job_start = 1, job_end = 2, job_id = 1\<rparr>]\<rparr>
   \<and> fst (getElevatorStatus (JS_string ''1'') busy_sys) =
       [\<lparr>elev_id = 1, current_floor = 1, state = Moving, direction = Up,
         job_queue = Array [\<lparr>job_start = 1, job_end = 2, job_id = 1\<rparr>]\<rparr>]
   \<and> fst (getElevatorStatus JS_undefined busy_sys) =
       [\<lparr>elev_id = 1, current_floor = 1, state = Moving, direction = Up,
         job_queue = Text (JSON_stringify [\<lparr>job_start = 1, job_end = 2, job_id = 1\<rparr>])\<rparr>]"
proof -
  have h1: "truthy (JS_string ''1'')" and h2: "\<not> truthy JS_undefined"
    by simp_all
  have h3: "find (id_matches (parseInt (JS_string ''1''))) (elevators busy_sys) =
       Some \<lparr>elev_id = 1, current_floor = 1, state = Moving, direction = Up,
             job_queue = JSON_stringify [\<lparr>job_start = 1, job_end = 2, job_id = 1\<rparr>]\<rparr>"
    by code_simp
  have e: "elevators busy_sys = [\<lparr>elev_id = 1, current_floor = 1, state = Moving, direction = Up,
             job_queue = JSON_stringify [\<lparr>job_start = 1, job_end = 2, job_id = 1\<rparr>]\<rparr>]"
    by code_simp
  from getElevatorStatus_shapes_differ [OF h1 h2 h3] h1 h2 h3 e show ?thesis
    by (simp add: with_job_queue_def)
qed

section \<open>Movement\<close>

text \<open>
  C8 (as amended). When no record with the elevator's id exists in the store, no step
  writes an elevator record or emits a \<open>state_update\<close> event, and none fails or retries.
  A leg that starts then (\<open>moveElevator\<close>) is abandoned entirely: no event, no timer. The
  steps of a chain already under way are not abandoned: a floor step still registers the
  next one, the arrival still appends an \<open>arrival\<close> event for the missing id and
  registers the door-close timer, and the door close still appends a \<open>door_close\<close>
  event for the missing id.
\<close>

theorem missing_elevator_steps:
  assumes "\<forall>r \<in> set (elevators s). elev_id r \<noteq> i"
  shows "elevators (updateElevatorState i u s) = elevators s
     \<and> event_logs (updateElevatorState i u s) = event_logs s
     \<and> timers (updateElevatorState i u s) = timers s
     \<and> elevators (moveElevator cfg i a b j s) = elevators s
     \<and> event_logs (moveElevator cfg i a b j s) = event_logs s
     \<and> timers (moveElevator cfg i a b j s) = timers s
     \<and> elevators (floorIterator cfg i e dir cur s) = elevators s
     \<and> (cur \<noteq> e \<longrightarrow>
          event_logs (floorIterator cfg i e dir cur s) = event_logs s
          \<and> timers (floorIterator cfg i e dir cur s) = timers s @
              [(now s + timer_delay (FLOOR_TRAVEL_TIME_MS cfg),
                FloorIterator i e dir (if dir = Up then cur + 1 else cur - 1))])
     \<and> event_logs (floorIterator cfg i e dir e s) = event_logs s @
          [\<lparr>ev_id = Suc (uuids s), ev_timestamp = now s, ev_elevator_id = i,
            event_type = ''arrival'', details = Doors_details e ''open''\<rparr>]
     \<and> timers (floorIterator cfg i e dir e s) = timers s @
          [(now s + timer_delay (DOOR_ACTION_TIME_MS cfg), CloseDoors i e)]
     \<and> elevators (closeDoors i f s) = elevators s
     \<and> event_logs (closeDoors i f s) = event_logs s @
          [\<lparr>ev_id = Suc (uuids s), ev_timestamp = now s, ev_elevator_id = i,
            event_type = ''door_close'', details = Doors_details f ''closed''\<rparr>]
     \<and> timers (closeDoors i f s) = timers s"
proof -
  have absent: "find (id_matches (Num i)) (elevators s) = None"
    using assms by (rule find_absent)
  have upd: "updateElevatorState i u s = logSql (Select_by_id (Num i)) s" for u
    by (rule updateElevatorState_missing [OF absent])
  have mv: "moveElevator cfg i a b j s = logSql (Select_by_id (Num i)) s"
    using absent by (simp add: moveElevator_def getElevatorById_def Let_def)
  have step: "cur \<noteq> e \<Longrightarrow> floorIterator cfg i e dir cur s =
      setTimeout (FloorIterator i e dir (if dir = Up then cur + 1 else cur - 1))
        (FLOOR_TRAVEL_TIME_MS cfg) (logSql (Select_by_id (Num i)) s)"
    by (simp add: floorIterator_def Let_def upd)
  have arr: "floorIterator cfg i e dir e s =
      setTimeout (CloseDoors i e) (DOOR_ACTION_TIME_MS cfg)
        (logEvent i ''arrival'' (Doors_details e ''open'') (logSql (Select_by_id (Num i)) s))"
    by (simp add: floorIterator_def arriveAtFloor_def upd)
  have cl: "closeDoors i f s =
      logEvent i ''door_close'' (Doors_details f ''closed'') (logSql (Select_by_id (Num i)) s)"
    by (simp add: closeDoors_def upd)
  have el: "elevators (floorIterator cfg i e dir cur s) = elevators s"
    by (cases "cur = e") (simp_all add: step arr)
  show ?thesis
    by (simp add: upd mv step arr cl el timers_setTimeout logEvent_event_logs)
qed

theorem missing_elevator_steps_witness:
  "list_all (\<lambda>r. elev_id r \<noteq> 1) (elevators orphaned_sys)
   \<and> elevators (moveElevator default_config 1 2 4 1 orphaned_sys) = elevators orphaned_sys
   \<and> event_logs (moveElevator default_config 1 2 4 1 orphaned_sys) = event_logs orphaned_sys
   \<and> timers (moveElevator default_config 1 2 4 1 orphaned_sys) = timers orphaned_sys
   \<and> elevators (closeDoors 1 2 orphaned_sys) = elevators orphaned_sys
   \<and> map event_type (event_logs (closeDoors 1 2 orphaned_sys)) =
        map event_type (event_logs orphaned_sys) @ [''door_close'']"
proof -
  have h: "list_all (\<lambda>r. elev_id r \<noteq> 1) (elevators orphaned_sys)"
    by code_simp
  then have h': "\<forall>r \<in> set (elevators orphaned_sys). elev_id r \<noteq> 1"
    by (simp add: list_all_iff)
  from missing_elevator_steps [OF h', of _ default_config 2 4 1 _ _ _ 2] h show ?thesis
    by simp
qed

text \<open>
  The claim as written fails: with the record of elevator 1 deleted while it travels to
  floor 2, the pending floor step still fires, appends an \<open>arrival\<close> event for elevator 1
  and registers the door-close timer.
\<close>

theorem missing_elevator_arrival_counterexample:
  "list_all (\<lambda>r. elev_id r \<noteq> 1) (elevators orphaned_sys)
   \<and> timers orphaned_sys = [(5000, FloorIterator 1 2 Up 2), (9000, SecondLeg 1 2 4 1)]
   \<and> map (\<lambda>e. (ev_elevator_id e, event_type e))
        (drop (length (event_logs orphaned_sys))
           (event_logs (fire_next default_config orphaned_sys))) = [(1, ''arrival'')]
   \<and> timers (fire_next default_config orphaned_sys) =
        [(9000, SecondLeg 1 2 4 1), (7000, CloseDoors 1 2)]"
  by code_simp

text \<open>
  C1 does not hold of the code. \<open>floorIterator\<close> writes \<open>current_floor\<close> only for the
  floors it leaves; on reaching \<open>endFloor\<close> it calls \<open>arriveAtFloor\<close> and returns, and
  neither the arrival nor the door close writes the floor. In a fresh building with the
  default configuration, the call from floor 2 to floor 4 is accepted for elevator 1;
  after the full estimated duration of both legs (1 floor and 2 floors of travel, three
  door actions: 21000 ms) no timer is left and elevator 1 is Idle with direction None and
  an empty queue, but its stored \<open>current_floor\<close> is 3, not 4. (The \<open>arrival\<close> event
  logged on the way reports floor 4.)
\<close>

theorem trip_ends_one_floor_short:
  "fst (callElevator default_config 2 4 fresh_sys) =
     \<lparr>success = True, message = ''Elevator dispatched.'', res_jobId = Some 1,
      res_elevator_id = Some 1, status = Some ''Moving''\<rparr>
   \<and> \<bar>2 - 1\<bar> * FLOOR_TRAVEL_TIME_MS default_config + 2 * DOOR_ACTION_TIME_MS default_config
       + \<bar>4 - 2\<bar> * FLOOR_TRAVEL_TIME_MS default_config + DOOR_ACTION_TIME_MS default_config
       = (21000 :: int)
   \<and> timers (advance default_config 21000 (snd (callElevator default_config 2 4 fresh_sys))) = []
   \<and> find (id_matches (Num 1))
        (elevators (advance default_config 21000 (snd (callElevator default_config 2 4 fresh_sys))))
      = Some \<lparr>elev_id = 1, current_floor = 3, state = Idle, direction = Dir_None,
               job_queue = JSON_stringify []\<rparr>"
  by code_simp

section \<open>The invariant of the elevator record\<close>

text \<open>
  The three conditions on a record of the \<open>elevators\<close> table: no direction, Idle, empty job
  queue.
\<close>

definition three_way :: "row \<Rightarrow> bool" where
  "three_way r \<longleftrightarrow>
     (direction r = Dir_None) = (state r = Idle) \<and>
     (state r = Idle) = (JSON_parse (job_queue r) = [])"

text \<open>
  The table is written in two places only: the inserts of \<open>initializeDb\<close> and the UPDATE of
  \<open>updateElevatorState\<close> (db.js l.108-129). The latter first reads the record
  (\<open>await getElevatorById\<close>, l.109) and then writes, into all four columns, the merge of the
  update with what it has read (l.114-122). Between the read and the write the event loop
  runs whatever else is ready, so the record written can be older than the record replaced.
  \<open>updateElevatorState_write\<close> is the second half, from the snapshot \<open>elevator\<close> on.
\<close>

definition updateElevatorState_write ::
    "int \<Rightarrow> job list elevator \<Rightarrow> new_state \<Rightarrow> sys \<Rightarrow> sys" where
  "updateElevatorState_write i elevator newState s =
     logEvent i ''state_update''
       (State_update_details (upd_state newState) (upd_direction newState)
          (upd_current_floor newState))
       (s\<lparr>elevators :=
             map (\<lambda>r. if elev_id r = i then update_row elevator newState r else r)
               (elevators s)\<rparr>)"

text \<open>
  The service calls \<open>updateElevatorState\<close> with four shapes of update: on dispatch
  (\<open>moveElevator\<close>, elevatorService.js l.37-41), on a floor step (\<open>floorIterator\<close>, l.49), on
  arrival (\<open>arriveAtFloor\<close>, l.59) and on door close (l.63).
\<close>

definition dispatch_update :: "int \<Rightarrow> int \<Rightarrow> nat \<Rightarrow> new_state" where
  "dispatch_update startFloor endFloor jobId =
     no_update\<lparr>upd_state := Some Moving,
       upd_direction := Some (if endFloor > startFloor then Up else Down),
       upd_job_queue :=
         Some [\<lparr>job_start = startFloor, job_end = endFloor, job_id = jobId\<rparr>]\<rparr>"

definition floor_update :: "int \<Rightarrow> new_state" where
  "floor_update currentFloor = no_update\<lparr>upd_current_floor := Some currentFloor\<rparr>"

definition arrival_update :: new_state where
  "arrival_update = no_update\<lparr>upd_state := Some DoorsOpen\<rparr>"

definition door_close_update :: new_state where
  "door_close_update =
     no_update\<lparr>upd_state := Some Idle, upd_direction := Some Dir_None, upd_job_queue := Some []\<rparr>"

text \<open>
  The states of the store under every schedule. \<open>interleaved s p\<close>: the store is in state
  \<open>s\<close> and the updates \<open>p\<close> have read their record and not yet written. Reads and writes
  of the four operations happen in any order, at any time, for any elevator and any
  arguments: nothing is assumed about the clock, the delays of the configuration, the
  latency of the store, the floors, or which calls are in progress. Two calls that select
  the same elevator before either has marked it Moving are two \<open>read_dispatch\<close> steps.
  One condition is made, in \<open>read_arrival\<close>: an arrival is applied only to a record that
  it has read as not Idle. Steps that leave the table alone (logs, timers, the clock) are
  \<open>other\<close>; \<open>delete\<close> is a row removed by another client of the database file (the
  service itself never deletes).
\<close>

type_synonym pending_write = "int \<times> job list elevator \<times> new_state"

inductive interleaved :: "sys \<Rightarrow> pending_write list \<Rightarrow> bool" where
  init: "interleaved (initializeDb numElevators empty_sys) []"
| read_dispatch:
    "interleaved s p \<Longrightarrow> getElevatorById (Num i) s = (Some elevator, s1) \<Longrightarrow>
     interleaved s1 ((i, elevator, dispatch_update startFloor endFloor jobId) # p)"
| read_floor_step:
    "interleaved s p \<Longrightarrow> getElevatorById (Num i) s = (Some elevator, s1) \<Longrightarrow>
     interleaved s1 ((i, elevator, floor_update currentFloor) # p)"
| read_arrival:
    "interleaved s p \<Longrightarrow> getElevatorById (Num i) s = (Some elevator, s1) \<Longrightarrow>
     state elevator \<noteq> Idle \<Longrightarrow>
     interleaved s1 ((i, elevator, arrival_update) # p)"
| read_door_close:
    "interleaved s p \<Longrightarrow> getElevatorById (Num i) s = (Some elevator, s1) \<Longrightarrow>
     interleaved s1 ((i, elevator, door_close_update) # p)"
| commit:
    "interleaved s p \<Longrightarrow> (i, elevator, newState) \<in> set p \<Longrightarrow>
     interleaved (updateElevatorState_write i elevator newState s)
       (remove1 (i, elevator, newState) p)"
| other: "interleaved s p \<Longrightarrow> elevators s' = elevators s \<Longrightarrow> interleaved s' p"
| delete: "interleaved s p \<Longrightarrow> interleaved (delete_elevator i s) p"

text \<open>
  The same condition for the callbacks of the clock model: a callback that is an arrival
  (\<open>floorIterator\<close> with \<open>currentFloor === endFloor\<close>, l.44-46) finds its record not Idle,
  or finds none.
\<close>

definition not_idle :: "int \<Rightarrow> sys \<Rightarrow> bool" where
  "not_idle i s \<longleftrightarrow>
     (case find (id_matches (Num i)) (elevators s) of
        None \<Rightarrow> True
      | Some r \<Rightarrow> state r \<noteq> Idle)"

fun arrival_guard :: "task \<Rightarrow> sys \<Rightarrow> bool" where
  "arrival_guard (FloorIterator i e dir cur) s = (if cur = e then not_idle i s else True)"
| "arrival_guard (CloseDoors i f) s = True"
| "arrival_guard (SecondLeg i a b j) s = True"


definition late_close_sys :: sys where
  "late_close_sys =
     closeDoors 1 2 (moveElevator default_config 1 2 4 1 (fire_next default_config busy_sys))"

text \<open>A pending write is harmless when the record it will write satisfies the conditions.\<close>

definition pending_ok :: "pending_write \<Rightarrow> bool" where
  "pending_ok w \<longleftrightarrow> (case w of (i, el, u) \<Rightarrow> \<forall>r. three_way (update_row el u r))"

lemma updateElevatorState_split:
  "updateElevatorState i u s =
     (case getElevatorById (Num i) s of
        (None, s1) \<Rightarrow> s1
      | (Some elevator, s1) \<Rightarrow> updateElevatorState_write i elevator u s1)"
  by (simp add: updateElevatorState_def updateElevatorState_write_def split: prod.splits option.splits)

lemma update_row_merged [simp]:
  "state (update_row el u r) = truthy_or (upd_state u) (state el)"
  "direction (update_row el u r) = truthy_or (upd_direction u) (direction el)"
  "JSON_parse (job_queue (update_row el u r)) = truthy_or (upd_job_queue u) (job_queue el)"
  by (simp_all add: update_row_def)

lemma parse_row_fields [simp]:
  "state (parse_row r) = state r" "direction (parse_row r) = direction r"
  "job_queue (parse_row r) = JSON_parse (job_queue r)" "elev_id (parse_row r) = elev_id r"
  "current_floor (parse_row r) = current_floor r"
  by (simp_all add: parse_row_def with_job_queue_def)

lemma getElevatorById_Some:
  assumes "getElevatorById (Num i) s = (Some el, s1)"
  shows "s1 = logSql (Select_by_id (Num i)) s"
    and "\<exists>r0 \<in> set (elevators s). find (id_matches (Num i)) (elevators s) = Some r0 \<and>
           el = parse_row r0"
  using assms by (auto simp: getElevatorById_def Let_def find_Some_iff)

lemma pending_ok_read:
  assumes "getElevatorById (Num i) s = (Some el, s1)"
    and "\<forall>r \<in> set (elevators s). three_way r"
    and "u = dispatch_update a b j \<or> u = floor_update cur \<or> u = door_close_update \<or>
         (u = arrival_update \<and> state el \<noteq> Idle)"
  shows "pending_ok (i, el, u)"
proof -
  from getElevatorById_Some(2) [OF assms(1)] obtain r0 where
    r0: "r0 \<in> set (elevators s)" "el = parse_row r0"
    by blast
  with assms(2) have "three_way r0" by blast
  with assms(3) r0(2) show ?thesis
    by (auto simp: pending_ok_def three_way_def dispatch_update_def floor_update_def
        door_close_update_def arrival_update_def no_update_def split: if_splits)
qed

lemma interleaved_inv:
  "interleaved s p \<Longrightarrow>
   (\<forall>r \<in> set (elevators s). three_way r) \<and> (\<forall>w \<in> set p. pending_ok w)"
proof (induction rule: interleaved.induct)
  case (init numElevators)
  show ?case
    by (simp add: initializeDb_def empty_sys_def insert_loop_eq three_way_def initial_row_def
        del: insert_loop.simps)
next
  case (read_dispatch s p i elevator s1 startFloor endFloor jobId)
  have "pending_ok (i, elevator, dispatch_update startFloor endFloor jobId)"
    by (rule pending_ok_read [OF read_dispatch.hyps(2)]) (use read_dispatch.IH in auto)
  with read_dispatch.IH getElevatorById_Some(1) [OF read_dispatch.hyps(2)] show ?case by simp
next
  case (read_floor_step s p i elevator s1 currentFloor)
  have "pending_ok (i, elevator, floor_update currentFloor)"
    by (rule pending_ok_read [OF read_floor_step.hyps(2)]) (use read_floor_step.IH in auto)
  with read_floor_step.IH getElevatorById_Some(1) [OF read_floor_step.hyps(2)] show ?case by simp
next
  case (read_arrival s p i elevator s1)
  have "pending_ok (i, elevator, arrival_update)"
    by (rule pending_ok_read [OF read_arrival.hyps(2)])
       (use read_arrival.IH read_arrival.hyps(3) in auto)
  with read_arrival.IH getElevatorById_Some(1) [OF read_arrival.hyps(2)] show ?case by simp
next
  case (read_door_close s p i elevator s1)
  have "pending_ok (i, elevator, door_close_update)"
    by (rule pending_ok_read [OF read_door_close.hyps(2)]) (use read_door_close.IH in auto)
  with read_door_close.IH getElevatorById_Some(1) [OF read_door_close.hyps(2)] show ?case by simp
next
  case (commit s p i elevator newState)
  then have ok: "\<forall>r. three_way (update_row elevator newState r)"
    by (auto simp: pending_ok_def)
  have "set (remove1 (i, elevator, newState) p) \<subseteq> set p"
    by (rule set_remove1_subset)
  with commit.IH ok show ?case
    by (auto simp: updateElevatorState_write_def)
next
  case (other s p s')
  then show ?case by simp
next
  case (delete s p i)
  then show ?case by (simp add: delete_elevator_def)
qed

text \<open>
  The operations of the service are runs of \<open>interleaved\<close>: each \<open>updateElevatorState\<close> is
  a read followed at once by its write.
\<close>

lemma interleaved_update:
  assumes "interleaved s p"
    and "u = dispatch_update a b j \<or> u = floor_update cur \<or> u = door_close_update \<or>
         (u = arrival_update \<and> not_idle i s)"
  shows "interleaved (updateElevatorState i u s) p"
proof (cases "getElevatorById (Num i) s")
  case (Pair res s1)
  show ?thesis
  proof (cases res)
    case None
    have "elevators s1 = elevators s"
      using Pair by (auto simp: getElevatorById_def Let_def)
    with assms(1) have "interleaved s1 p" by (rule interleaved.other)
    with Pair None show ?thesis by (simp add: updateElevatorState_split)
  next
    case (Some el)
    with Pair have g: "getElevatorById (Num i) s = (Some el, s1)" by simp
    from getElevatorById_Some(2) [OF g] assms(2)
    have guard: "u = arrival_update \<Longrightarrow> state el \<noteq> Idle"
      by (auto simp: not_idle_def dispatch_update_def floor_update_def door_close_update_def
          arrival_update_def no_update_def)
    have "interleaved s1 ((i, el, u) # p)"
      using assms(2)
    proof (elim disjE conjE)
      assume "u = dispatch_update a b j"
      then show ?thesis using interleaved.read_dispatch [OF assms(1) g] by simp
    next
      assume "u = floor_update cur"
      then show ?thesis using interleaved.read_floor_step [OF assms(1) g] by simp
    next
      assume "u = door_close_update"
      then show ?thesis using interleaved.read_door_close [OF assms(1) g] by simp
    next
      assume u: "u = arrival_update"
      with guard interleaved.read_arrival [OF assms(1) g] show ?thesis by simp
    qed
    from interleaved.commit [OF this, of i el u] g show ?thesis
      by (simp add: updateElevatorState_split)
  qed
qed

lemma interleaved_logEvent: "interleaved s p \<Longrightarrow> interleaved (logEvent i ty d s) p"
  by (erule interleaved.other) simp

lemma interleaved_logSql: "interleaved s p \<Longrightarrow> interleaved (logSql q s) p"
  by (erule interleaved.other) simp

lemma interleaved_setTimeout: "interleaved s p \<Longrightarrow> interleaved (setTimeout cb d s) p"
  by (erule interleaved.other) simp

lemma closeDoors_covered: "interleaved s p \<Longrightarrow> interleaved (closeDoors i f s) p"
  unfolding closeDoors_def
  by (rule interleaved_logEvent, rule interleaved_update [where a = 0 and b = 0 and j = 0 and cur = 0])
     (simp_all add: door_close_update_def)

lemma arriveAtFloor_covered:
  "interleaved s p \<Longrightarrow> not_idle i s \<Longrightarrow> interleaved (arriveAtFloor cfg i f s) p"
  unfolding arriveAtFloor_def
  by (rule interleaved_setTimeout, rule interleaved_logEvent,
      rule interleaved_update [where a = 0 and b = 0 and j = 0 and cur = 0])
     (simp_all add: arrival_update_def)

lemma floorIterator_covered:
  assumes "interleaved s p" and "cur = e \<Longrightarrow> not_idle i s"
  shows "interleaved (floorIterator cfg i e dir cur s) p"
proof (cases "cur = e")
  case True
  with assms show ?thesis by (simp add: floorIterator_def arriveAtFloor_covered)
next
  case False
  have "interleaved (updateElevatorState i (no_update\<lparr>upd_current_floor := Some cur\<rparr>) s) p"
    by (rule interleaved_update [OF assms(1), where a = 0 and b = 0 and j = 0 and cur = cur])
       (simp add: floor_update_def)
  with False show ?thesis by (simp add: floorIterator_def Let_def interleaved_setTimeout)
qed

lemma not_idle_after_dispatch:
  "not_idle i (updateElevatorState i (dispatch_update a b j) s)"
proof (cases "find (id_matches (Num i)) (elevators s)")
  case None
  then show ?thesis by (simp add: updateElevatorState_missing not_idle_def)
next
  case (Some r0)
  let ?u = "dispatch_update a b j"
  have el: "elevators (updateElevatorState i ?u s) =
      map (\<lambda>x. if elev_id x = i then update_row (parse_row r0) ?u x else x) (elevators s)"
    by (simp add: updateElevatorState_found [OF Some])
  have f: "find (id_matches (Num i))
          (map (\<lambda>x. if elev_id x = i then update_row (parse_row r0) ?u x else x) (elevators s))
        = Some (update_row (parse_row r0) ?u r0)"
    using Some by (rule find_map_update) simp
  have "upd_state ?u = Some Moving"
    by (simp add: dispatch_update_def no_update_def)
  then have "state (update_row (parse_row r0) ?u r0) \<noteq> Idle"
    by simp
  then show ?thesis
    unfolding not_idle_def el f by simp
qed

lemma moveElevator_covered:
  assumes "interleaved s p"
  shows "interleaved (moveElevator cfg i a b j s) p"
proof (cases "find (id_matches (Num i)) (elevators s)")
  case None
  with assms show ?thesis
    by (simp add: moveElevator_def getElevatorById_def Let_def interleaved_logSql)
next
  case (Some r0)
  let ?s1 = "logSql (Select_by_id (Num i)) s"
  let ?s2 = "updateElevatorState i (dispatch_update a b j) ?s1"
  have "interleaved ?s2 p"
    by (rule interleaved_update [where a = a and b = b and j = j and cur = 0])
       (simp_all add: interleaved_logSql assms)
  then have "interleaved (floorIterator cfg i b (if b > a then Up else Down) a ?s2) p"
    by (rule floorIterator_covered) (rule not_idle_after_dispatch)
  with Some show ?thesis
    by (simp add: moveElevator_def getElevatorById_def Let_def dispatch_update_def)
qed

lemma callElevator_covered:
  assumes "interleaved s p"
  shows "interleaved (snd (callElevator cfg a b s)) p"
  using callElevator_cases [of cfg a b s]
proof (elim disjE exE conjE)
  assume "callElevator cfg a b s = (rejected ''Invalid floor numbers.'', s)"
  with assms show ?thesis by simp
next
  assume "callElevator cfg a b s = (rejected ''No idle elevators available.'', logSql Select_all s)"
  with assms show ?thesis by (simp add: interleaved_logSql)
next
  fix e
  assume call: "callElevator cfg a b s =
      (\<lparr>success = True, message = ''Elevator dispatched.'', res_jobId = Some (Suc (uuids s)),
        res_elevator_id = Some (elev_id e), status = Some ''Moving''\<rparr>, dispatch cfg a b e s)"
  have "interleaved ((logSql Select_all s)\<lparr>uuids := Suc (Suc (uuids s))\<rparr>) p"
    using assms by (rule interleaved.other) simp
  then have "interleaved (dispatch cfg a b e s) p"
    unfolding dispatch_def
    by (intro interleaved_setTimeout moveElevator_covered interleaved_logEvent)
  with call show ?thesis by simp
qed

lemma run_task_covered:
  "interleaved s p \<Longrightarrow> arrival_guard c s \<Longrightarrow> interleaved (run_task cfg c s) p"
  by (cases c) (simp_all add: floorIterator_covered closeDoors_covered moveElevator_covered)

lemma not_idle_cong: "elevators s' = elevators s \<Longrightarrow> not_idle i s' = not_idle i s"
  by (simp add: not_idle_def)

lemma arrival_guard_cong: "elevators s' = elevators s \<Longrightarrow> arrival_guard c s' = arrival_guard c s"
  by (cases c) (simp_all add: not_idle_def)

lemma fire_next_covered:
  assumes "interleaved s p" and "\<forall>t \<in> set (timers s). arrival_guard (snd t) s"
  shows "interleaved (fire_next cfg s) p"
proof (cases "timers s")
  case Nil
  with assms show ?thesis by (simp add: fire_next_def)
next
  case (Cons t ts)
  define tm where "tm = earliest t ts"
  define s1 where "s1 = s\<lparr>timers := remove1 tm (t # ts), now := max (now s) (fst tm)\<rparr>"
  have "tm \<in> set (timers s)" unfolding tm_def Cons by (rule earliest_in)
  with assms(2) have "arrival_guard (snd tm) s" by blast
  moreover have el: "elevators s1 = elevators s" by (simp add: s1_def)
  ultimately have g: "arrival_guard (snd tm) s1"
    using arrival_guard_cong [OF el, of "snd tm"] by simp
  have "interleaved s1 p" using assms(1) el by (rule interleaved.other)
  then have "interleaved (run_task cfg (snd tm) s1) p" using g by (rule run_task_covered)
  then show ?thesis using Cons by (simp add: fire_next_def Let_def tm_def s1_def)
qed

text \<open>
  The condition on arrivals cannot be dropped: an arrival that has read an Idle record
  writes DoorsOpen with no direction and an empty queue.
\<close>

lemma arrival_on_idle_record:
  assumes "interleaved s p" and "getElevatorById (Num i) s = (Some el, s1)"
    and "state el = Idle"
  shows "state (update_row el arrival_update r) = DoorsOpen
     \<and> direction (update_row el arrival_update r) = Dir_None
     \<and> JSON_parse (job_queue (update_row el arrival_update r)) = []"
proof -
  from getElevatorById_Some(2) [OF assms(2)] obtain r0 where
    r0: "r0 \<in> set (elevators s)" "el = parse_row r0"
    by blast
  with interleaved_inv [OF assms(1)] have "three_way r0" by blast
  with assms(3) r0(2) show ?thesis
    by (auto simp: three_way_def arrival_update_def no_update_def)
qed

text \<open>
  With a late door close the record is Idle during leg 2; the invariant holds in that
  state, and the arrival of leg 2 is the step that the condition excludes.
\<close>

lemma late_door_close_run:
  "interleaved late_close_sys []
   \<and> elevators late_close_sys =
       [\<lparr>elev_id = 1, current_floor = 2, state = Idle, direction = Dir_None,
         job_queue = JSON_stringify []\<rparr>]
   \<and> FloorIterator 1 4 Up 3 \<in> set (map snd (timers late_close_sys))
   \<and> \<not> arrival_guard (FloorIterator 1 4 Up 4) late_close_sys"
proof -
  have "interleaved single_sys []"
    unfolding single_sys_def by (rule interleaved.init)
  then have b: "interleaved busy_sys []"
    unfolding busy_sys_def by (rule callElevator_covered)
  have "list_all (\<lambda>t. arrival_guard (snd t) busy_sys) (timers busy_sys)"
    by code_simp
  then have "\<forall>t \<in> set (timers busy_sys). arrival_guard (snd t) busy_sys"
    by (simp add: list_all_iff)
  with b have "interleaved (fire_next default_config busy_sys) []"
    by (rule fire_next_covered)
  then have "interleaved (moveElevator default_config 1 2 4 1 (fire_next default_config busy_sys)) []"
    by (rule moveElevator_covered)
  then have "interleaved late_close_sys []"
    unfolding late_close_sys_def by (rule closeDoors_covered)
  moreover have "elevators late_close_sys =
       [\<lparr>elev_id = 1, current_floor = 2, state = Idle, direction = Dir_None,
         job_queue = JSON_stringify []\<rparr>]"
    by code_simp
  moreover have "map snd (timers late_close_sys) =
       [SecondLeg 1 2 4 1, CloseDoors 1 2, FloorIterator 1 4 Up 3]"
    by code_simp
  moreover have "\<not> arrival_guard (FloorIterator 1 4 Up 4) late_close_sys"
    by code_simp
  ultimately show ?thesis by simp
qed




end
